theory Spec2Isabelle
  imports Complex_Main "HOL-Library.AList"
begin

section \<open>Data model\<close>

text \<open>
  The pipeline works on pandas rows and Python dicts.  A row of \<open>internships_df\<close> carries the
  capacity and the five quota columns; every ranklist entry is a dict with a student identity
  and a score (\<open>allotment.py\<close>), extended by reservation, rural flag and gender in
  \<open>ranklist_builder.py\<close>.  Python ints are \<open>int\<close>, scores are read as real numbers (the
  code only compares them), identities are strings.
\<close>

datatype category = SC | ST | OBC | UR | RURAL

datatype error = KeyError string

record caps =
  capacity :: int
  cap_sc :: int
  cap_st :: int
  cap_obc :: int
  cap_ur :: int
  cap_rural :: int

record row = caps +
  internship_id :: string

record entry =
  student_id :: string
  final_score :: real

record student = entry +
  reservation :: string
  rural :: int
  gender :: string

text \<open>A ranklist of \<open>ranklist_builder.py\<close>: the dict with the keys SC, ST, OBC, UR, RURAL.\<close>

type_synonym ranklist = "category \<Rightarrow> student list"

section \<open>Quota derivation: \<open>generate_internships\<close> (data_generator.py, lines 48-54)\<close>

text \<open>
  \<open>cap = random.randint(5, 20)\<close> is the only random input of the split; it is the argument
  here.  Python's \<open>//\<close> on ints is floor division, as \<open>div\<close> on \<open>int\<close>.
\<close>

definition generate_internships_caps :: "int \<Rightarrow> caps" where
  "generate_internships_caps cap =
     (let sc = max 1 (cap div 10);
          st = max 1 (cap div 20);
          obc = max 1 (cap div 6);
          ur = cap - (sc + st + obc);
          rur = max 1 (cap div 5)
      in \<lparr>capacity = cap, cap_sc = sc, cap_st = st, cap_obc = obc, cap_ur = ur,
          cap_rural = rur\<rparr>)"

section \<open>Single-pass engine: \<open>optionC_allotment\<close> (optionC_allotment.py)\<close>

text \<open>Python's \<open>xs[:n]\<close>: a negative \<open>n\<close> counts from the end.\<close>

definition slice_to :: "int \<Rightarrow> 'a list \<Rightarrow> 'a list" where
  "slice_to n xs = (if 0 \<le> n then take (nat n) xs else take (length xs - nat (- n)) xs)"

text \<open>
  Lines 33-50, one loop per pool, and lines 85-87 with the capacity as the limit:
  \<^verbatim>\<open>for s in pool: if len(selected) < limit: selected.append(s)\<close>
\<close>

definition fill :: "student list \<Rightarrow> int \<Rightarrow> student list \<Rightarrow> student list" where
  "fill pool limit selected =
     foldl (\<lambda>sel s. if int (length sel) < limit then sel @ [s] else sel) selected pool"

text \<open>
  Lines 55-58: \<open>unique[stu["student_id"]] = stu\<close> for every selected student, then
  \<open>list(unique.values())\<close>.  A dict keeps a key at the place of its first insertion and the
  value of its last assignment, which is \<open>AList.update\<close>.
\<close>

definition unique_by_id :: "student list \<Rightarrow> (string \<times> student) list" where
  "unique_by_id selected = foldl (\<lambda>d stu. AList.update (student_id stu) stu d) [] selected"

definition dedupe :: "student list \<Rightarrow> student list" where
  "dedupe selected = map snd (unique_by_id selected)"

text \<open>Lines 30-61: the vertical fill, the removal of duplicates and the safety clamp.\<close>

definition vertical_fill :: "row \<Rightarrow> ranklist \<Rightarrow> student list" where
  "vertical_fill r rl =
     (let selected = fill (rl SC) (cap_sc r) [];
          selected = fill (rl ST) (cap_sc r + cap_st r) selected;
          selected = fill (rl OBC) (cap_sc r + cap_st r + cap_obc r) selected;
          selected = fill (rl UR) (cap_sc r + cap_st r + cap_obc r + cap_ur r) selected;
          selected = dedupe selected
      in slice_to (capacity r) selected)"

text \<open>
  Lines 66-87: the horizontal (rural) pass.  \<open>sorted(non_rural, key=final_score)\<close> is a
  stable ascending sort, as \<open>sort_key\<close> is.
\<close>

definition rural_count :: "student list \<Rightarrow> int" where
  "rural_count selected = int (length (filter (\<lambda>x. rural x = 1) selected))"

definition rural_pass :: "int \<Rightarrow> int \<Rightarrow> student list \<Rightarrow> student list \<Rightarrow> student list" where
  "rural_pass cap caprural rural_list selected =
     (if rural_count selected < caprural then
        (let needed = caprural - rural_count selected;
             rural_pool = filter (\<lambda>x. student_id x \<notin> set (map student_id selected)) rural_list;
             to_add = slice_to needed rural_pool;
             non_rural = filter (\<lambda>x. rural x = 0) selected;
             non_rural_sorted = sort_key final_score non_rural;
             to_remove = slice_to needed non_rural_sorted;
             selected = foldl (\<lambda>sel r. filter (\<lambda>x. student_id x \<noteq> student_id r) sel)
                          selected to_remove
         in fill to_add cap selected)
      else selected)"

text \<open>Lines 30-90: the confirmed list of one position.\<close>

definition allot_position :: "row \<Rightarrow> ranklist \<Rightarrow> student list" where
  "allot_position r rl =
     slice_to (capacity r) (rural_pass (capacity r) (cap_rural r) (rl RURAL) (vertical_fill r rl))"

record round_log =
  log_internship_id :: string
  log_capacity :: int
  selected_count :: int
  vertical_caps :: "(category \<times> int) list"
  rural_cap :: int
  rural_selected :: int

record alloc_state =
  final_alloc :: "(string \<times> student list) list"
  round_logs :: "round_log list"

text \<open>
  One iteration of the loop over \<open>internships_df\<close> (lines 15-105).  \<open>ranklists[iid]\<close> raises
  KeyError for a position without a ranklist; \<open>final_alloc[iid] = selected\<close> is a dict
  assignment.
\<close>

definition loop_body :: "(string \<rightharpoonup> ranklist) \<Rightarrow> row \<Rightarrow> alloc_state \<Rightarrow> error + alloc_state" where
  "loop_body ranklists r st =
     (case ranklists (internship_id r) of
        None \<Rightarrow> Inl (KeyError (internship_id r))
      | Some rl \<Rightarrow>
          (let selected = allot_position r rl in
           Inr \<lparr>final_alloc = AList.update (internship_id r) selected (final_alloc st),
                round_logs = round_logs st @
                  [\<lparr>log_internship_id = internship_id r, log_capacity = capacity r,
                    selected_count = int (length selected),
                    vertical_caps = [(SC, cap_sc r), (ST, cap_st r), (OBC, cap_obc r),
                                     (UR, cap_ur r)],
                    rural_cap = cap_rural r,
                    rural_selected = rural_count selected\<rparr>]\<rparr>))"

fun optionC_loop :: "(string \<rightharpoonup> ranklist) \<Rightarrow> row list \<Rightarrow> alloc_state \<Rightarrow> error + alloc_state" where
  "optionC_loop ranklists [] st = Inr st"
| "optionC_loop ranklists (r # rs) st =
     (case loop_body ranklists r st of
        Inl e \<Rightarrow> Inl e
      | Inr st' \<Rightarrow> optionC_loop ranklists rs st')"

text \<open>
  The function returns \<open>final_alloc\<close> and writes \<open>round_logs\<close> to a file after the loop; the
  model returns both.
\<close>

definition optionC_allotment :: "(string \<rightharpoonup> ranklist) \<Rightarrow> row list \<Rightarrow> error + alloc_state" where
  "optionC_allotment ranklists internships_df =
     optionC_loop ranklists internships_df \<lparr>final_alloc = [], round_logs = []\<rparr>"

section \<open>Multi-round engine: \<open>multi_round_allotment\<close> (allotment.py)\<close>

text \<open>
  The value of \<open>ranklists[iid]\<close> in \<open>allotment.py\<close>: the five pools and the quota fields.  The
  dict \<open>ranklists\<close> itself is an association list in insertion order (the order of
  \<open>ranklists.items()\<close>).
\<close>

record info = caps +
  pools :: "category \<Rightarrow> entry list"

record allocation =
  a_student_id :: string
  a_category :: category
  a_final_score :: "real option"

record mr_state =
  allocations :: "string \<Rightarrow> allocation list"
  allocated_student :: "string \<rightharpoonup> string"
  pointers :: "string \<Rightarrow> category \<Rightarrow> nat"
  round_allocated :: "(string \<times> string list) list"
  round_cat_counts :: "(string \<times> (category \<times> int) list) list"

record mr_round_log =
  round :: int
  total_allocated :: int
  internships :: "(string \<times> int \<times> string list \<times> (category \<times> int) list) list"

record mr_result =
  res_allocations :: "(string \<times> allocation list) list"
  res_round_logs :: "mr_round_log list"
  unallocated_students :: "string list"

fun cap_of :: "category \<Rightarrow> info \<Rightarrow> int" where
  "cap_of SC info = cap_sc info"
| "cap_of ST info = cap_st info"
| "cap_of OBC info = cap_obc info"
| "cap_of UR info = cap_ur info"
| "cap_of RURAL info = cap_rural info"

text \<open>\<open>len([s for s in allocations[iid] if s['category'] == cat])\<close>\<close>

definition cat_count :: "category \<Rightarrow> allocation list \<Rightarrow> int" where
  "cat_count cat al = int (length (filter (\<lambda>s. a_category s = cat) al))"

text \<open>The \<open>defaultdict\<close>s of a round: a missing key is created at the end, with the default.\<close>

definition dd_get :: "'v \<Rightarrow> ('k \<times> 'v) list \<Rightarrow> 'k \<Rightarrow> 'v" where
  "dd_get dflt d k = (case map_of d k of None \<Rightarrow> dflt | Some v \<Rightarrow> v)"

definition dd_append :: "'k \<Rightarrow> 'v \<Rightarrow> ('k \<times> 'v list) list \<Rightarrow> ('k \<times> 'v list) list" where
  "dd_append k v d = AList.update k (dd_get [] d k @ [v]) d"

definition dd_incr :: "'k \<Rightarrow> ('k \<times> int) list \<Rightarrow> ('k \<times> int) list" where
  "dd_incr k d = AList.update k (dd_get 0 d k + 1) d"

text \<open>\<open>pointers[iid][cat] += 1\<close>\<close>

definition advance :: "string \<Rightarrow> category \<Rightarrow> mr_state \<Rightarrow> mr_state" where
  "advance iid cat st =
     st\<lparr>pointers := (pointers st)(iid := (pointers st iid)(cat := pointers st iid cat + 1))\<rparr>"

text \<open>The four updates after the \<open>continue\<close> of each category loop (lines 92-99).\<close>

definition confirm ::
  "(string \<times> string \<rightharpoonup> real) \<Rightarrow> string \<Rightarrow> category \<Rightarrow> string \<Rightarrow> mr_state \<Rightarrow> mr_state" where
  "confirm score_lookup iid cat cand st =
     st\<lparr>allocations := (allocations st)(iid := allocations st iid @
            [\<lparr>a_student_id = cand, a_category = cat,
              a_final_score = score_lookup (cand, iid)\<rparr>]),
        allocated_student := (allocated_student st)(cand \<mapsto> iid),
        round_allocated := dd_append iid cand (round_allocated st),
        round_cat_counts :=
          AList.update iid (dd_incr cat (dd_get [] (round_cat_counts st) iid))
            (round_cat_counts st)\<rparr>"

text \<open>
  One category loop (the five copies at lines 82-175 differ in the category only):
  \<^verbatim>\<open>
  while len([s for s in allocations[iid] if s['category'] == cat]) < cap:
      lst = info[cat]; p = pointers[iid][cat]
      if p >= len(lst): break
      cand = lst[p]['student_id']; pointers[iid][cat] += 1
      if cand in allocated_student: continue
      ...confirm...
  \<close>
\<close>

function fill_category ::
  "(string \<times> string \<rightharpoonup> real) \<Rightarrow> string \<Rightarrow> info \<Rightarrow> category \<Rightarrow> mr_state \<Rightarrow> mr_state" where
  "fill_category score_lookup iid info cat st =
     (if cat_count cat (allocations st iid) < cap_of cat info then
        (if length (pools info cat) \<le> pointers st iid cat then st
         else if allocated_student st (student_id (pools info cat ! pointers st iid cat)) \<noteq> None
           then fill_category score_lookup iid info cat (advance iid cat st)
           else fill_category score_lookup iid info cat
                  (confirm score_lookup iid cat
                     (student_id (pools info cat ! pointers st iid cat)) (advance iid cat st)))
      else st)"
  by pat_completeness auto
termination
  by (relation "measure (\<lambda>(sl, iid, info, cat, st). length (pools info cat) - pointers st iid cat)")
     (auto simp: advance_def confirm_def)

text \<open>The body of \<open>for iid, info in ranklists.items()\<close>: SC, ST, OBC, UR, RURAL in this order.\<close>

definition allot_internship ::
  "(string \<times> string \<rightharpoonup> real) \<Rightarrow> mr_state \<Rightarrow> string \<times> info \<Rightarrow> mr_state" where
  "allot_internship score_lookup st p =
     foldl (\<lambda>s cat. fill_category score_lookup (fst p) (snd p) cat s) st [SC, ST, OBC, UR, RURAL]"

text \<open>One round without its log: fresh round counters, then every position in dict order.\<close>

definition round_pass ::
  "(string \<times> string \<rightharpoonup> real) \<Rightarrow> (string \<times> info) list \<Rightarrow> mr_state \<Rightarrow> mr_state" where
  "round_pass score_lookup ranklists st =
     foldl (allot_internship score_lookup) (st\<lparr>round_allocated := [], round_cat_counts := []\<rparr>)
       ranklists"

definition total_allocated_this_round :: "mr_state \<Rightarrow> int" where
  "total_allocated_this_round st = sum_list (map (\<lambda>v. int (length (snd v))) (round_allocated st))"

definition round_summary :: "int \<Rightarrow> mr_state \<Rightarrow> mr_round_log" where
  "round_summary rounds st =
     \<lparr>round = rounds,
      total_allocated = total_allocated_this_round st,
      internships =
        map (\<lambda>(iid, students).
               (iid, int (length students), students, dd_get [] (round_cat_counts st) iid))
          (round_allocated st)\<rparr>"

text \<open>
  The round loop (lines 67-195): \<open>while rounds < max_rounds\<close>, left by \<open>break\<close> after a round
  that allocated nobody.
\<close>

function rounds_loop ::
  "(string \<times> string \<rightharpoonup> real) \<Rightarrow> (string \<times> info) list \<Rightarrow> int \<Rightarrow> int \<Rightarrow> mr_state
     \<Rightarrow> mr_round_log list \<Rightarrow> mr_state \<times> mr_round_log list" where
  "rounds_loop score_lookup ranklists max_rounds rounds st logs =
     (if rounds < max_rounds then
        (if total_allocated_this_round (round_pass score_lookup ranklists st) = 0
         then (round_pass score_lookup ranklists st,
               logs @ [round_summary (rounds + 1) (round_pass score_lookup ranklists st)])
         else rounds_loop score_lookup ranklists max_rounds (rounds + 1)
                (round_pass score_lookup ranklists st)
                (logs @ [round_summary (rounds + 1) (round_pass score_lookup ranklists st)]))
      else (st, logs))"
  by pat_completeness auto
termination
  by (relation "measure (\<lambda>(sl, rls, max_rounds, rounds, st, logs). nat (max_rounds - rounds))")
     auto

definition mr_init :: mr_state where
  "mr_init = \<lparr>allocations = (\<lambda>iid. []), allocated_student = Map.empty,
              pointers = (\<lambda>iid cat. 0), round_allocated = [], round_cat_counts = []\<rparr>"

text \<open>Lines 61-65: every identity that occurs in some pool.\<close>

definition all_students :: "(string \<times> info) list \<Rightarrow> string set" where
  "all_students ranklists =
     set (concat (map (\<lambda>p. concat (map (\<lambda>cat. map student_id (pools (snd p) cat))
                                      [SC, ST, OBC, UR, RURAL]))
                   ranklists))"

text \<open>
  \<open>multi_round_allotment(ranklists, students_pref_map, final_scores_df, max_rounds)\<close>.
  \<open>students_pref_map\<close> is never read; \<open>final_scores_df\<close> is read through \<open>score_lookup\<close> only.
  \<open>list(all_students - set(allocated_student.keys()))\<close> lists a Python set, whose iteration
  order for strings depends on the hash seed of the process: the order is the parameter
  \<open>set_order\<close>.
\<close>

definition multi_round_allotment ::
  "(string set \<Rightarrow> string list) \<Rightarrow> (string \<times> string \<rightharpoonup> real) \<Rightarrow> (string \<times> info) list \<Rightarrow> int
     \<Rightarrow> mr_result" where
  "multi_round_allotment set_order score_lookup ranklists max_rounds =
     (let fin = rounds_loop score_lookup ranklists max_rounds 0 mr_init [] in
      \<lparr>res_allocations = map (\<lambda>p. (fst p, allocations (fst fin) (fst p))) ranklists,
       res_round_logs = snd fin,
       unallocated_students =
         set_order (Set.filter (\<lambda>s. allocated_student (fst fin) s = None)
                      (all_students ranklists))\<rparr>)"

section \<open>RankList builder: \<open>build_ranklists\<close> (ranklist_builder.py)\<close>

text \<open>
  A row of \<open>pairs_df\<close> is the position's identity with the student's columns.
  \<open>make_struct\<close> keeps the five student columns of every row.
\<close>

type_synonym pair = "string \<times> student"

definition make_struct :: "pair list \<Rightarrow> student list" where
  "make_struct df = map snd df"

text \<open>Lines 47-63: the five pools cut out of the sorted frame \<open>sub\<close>.\<close>

definition pools_of :: "pair list \<Rightarrow> ranklist" where
  "pools_of sub =
     (\<lambda>c. case c of
        SC \<Rightarrow> make_struct (filter (\<lambda>p. reservation (snd p) = ''SC'') sub)
      | ST \<Rightarrow> make_struct (filter (\<lambda>p. reservation (snd p) = ''ST'') sub)
      | OBC \<Rightarrow> make_struct (filter (\<lambda>p. reservation (snd p) = ''OBC'') sub)
      | UR \<Rightarrow> make_struct sub
      | RURAL \<Rightarrow> make_struct (filter (\<lambda>p. rural (snd p) = 1) sub))"

text \<open>
  \<open>sub.sort_values(by="final_score", ascending=False)\<close>: pandas hands the key column to an
  argsort and takes the rows by the index array it returns.  The sorting algorithm belongs to
  pandas and numpy, not to the repository, and the call leaves it at the default: it is the
  parameter \<open>argsort\<close>, which sees the scores and nothing else of a row.
\<close>

definition sort_values :: "(real list \<Rightarrow> nat list) \<Rightarrow> pair list \<Rightarrow> pair list" where
  "sort_values argsort df = map (\<lambda>i. df ! i) (argsort (map (\<lambda>p. final_score (snd p)) df))"

definition build_ranklists ::
  "(real list \<Rightarrow> nat list) \<Rightarrow> pair list \<Rightarrow> row list \<Rightarrow> (string \<times> ranklist) list" where
  "build_ranklists argsort pairs_df internships_df =
     foldl (\<lambda>ranklists r.
              AList.update (internship_id r)
                (pools_of (sort_values argsort (filter (\<lambda>p. fst p = internship_id r) pairs_df)))
                ranklists)
       [] internships_df"

text \<open>
  What the call asks of the argsort, whatever its algorithm: it returns indices of the key
  list, and the keys do not increase along them.
\<close>

definition argsort_desc :: "(real list \<Rightarrow> nat list) \<Rightarrow> bool" where
  "argsort_desc argsort \<longleftrightarrow>
     (\<forall>ks. (\<forall>i \<in> set (argsort ks). i < length ks)
         \<and> sorted_wrt (\<lambda>i j. ks ! j \<le> ks ! i) (argsort ks))"

text \<open>
  One argsort of this kind, for use as an instance: the indices in ascending order of their
  keys, read backwards.  It stands for no particular version of the library.
\<close>

definition argsort_backwards :: "real list \<Rightarrow> nat list" where
  "argsort_backwards ks = rev (sort_key (\<lambda>i. ks ! i) [0..<length ks])"

definition score_desc :: "student list \<Rightarrow> bool" where
  "score_desc pool = sorted_wrt (\<lambda>a b. final_score b \<le> final_score a) pool"

section \<open>Concrete inputs\<close>

definition mk_student :: "string \<Rightarrow> real \<Rightarrow> string \<Rightarrow> int \<Rightarrow> student" where
  "mk_student i s c r =
     \<lparr>student_id = i, final_score = s, reservation = c, rural = r, gender = ''M''\<rparr>"

definition mk_entry :: "string \<Rightarrow> real \<Rightarrow> entry" where
  "mk_entry i s = \<lparr>student_id = i, final_score = s\<rparr>"

text \<open>
  The scenario of the specification: capacity 5, sub-quotas sc=1, st=1, obc=1, ur=2, rural 2;
  the only rural candidate is s6.
\<close>

definition scenario_row :: row where
  "scenario_row = \<lparr>capacity = 5, cap_sc = 1, cap_st = 1, cap_obc = 1, cap_ur = 2, cap_rural = 2,
                    internship_id = ''I001''\<rparr>"

definition scenario_ranklist :: ranklist where
  "scenario_ranklist =
     (\<lambda>c. case c of
        SC \<Rightarrow> [mk_student ''s1'' (9/10) ''SC'' 0]
      | ST \<Rightarrow> []
      | OBC \<Rightarrow> [mk_student ''s2'' (8/10) ''OBC'' 0, mk_student ''s3'' (5/10) ''OBC'' 0]
      | UR \<Rightarrow> [mk_student ''s4'' (95/100) ''GEN'' 0, mk_student ''s5'' (90/100) ''GEN'' 0,
               mk_student ''s6'' (85/100) ''GEN'' 1]
      | RURAL \<Rightarrow> [mk_student ''s6'' (85/100) ''GEN'' 1])"

text \<open>
  A position of capacity 2 whose SC candidate also heads the general pool: the duplicate is
  dropped after the vertical fill, which leaves a free seat for the rural pass.
\<close>

definition free_seat_row :: row where
  "free_seat_row = \<lparr>capacity = 2, cap_sc = 1, cap_st = 0, cap_obc = 0, cap_ur = 1, cap_rural = 2,
                     internship_id = ''I001''\<rparr>"

definition free_seat_ranklist :: ranklist where
  "free_seat_ranklist =
     (\<lambda>c. case c of
        SC \<Rightarrow> [mk_student ''s1'' (9/10) ''SC'' 1]
      | ST \<Rightarrow> []
      | OBC \<Rightarrow> []
      | UR \<Rightarrow> [mk_student ''s1'' (9/10) ''SC'' 1, mk_student ''s2'' (8/10) ''GEN'' 1]
      | RURAL \<Rightarrow> [mk_student ''s1'' (9/10) ''SC'' 1, mk_student ''s2'' (8/10) ''GEN'' 1])"

text \<open>A full swap: one rural candidate outside the selection, one non-rural member inside.\<close>

definition swap_row :: row where
  "swap_row = \<lparr>capacity = 2, cap_sc = 0, cap_st = 0, cap_obc = 0, cap_ur = 2, cap_rural = 1,
                internship_id = ''I001''\<rparr>"

definition swap_ranklist :: ranklist where
  "swap_ranklist =
     (\<lambda>c. case c of
        UR \<Rightarrow> [mk_student ''s1'' (9/10) ''GEN'' 0, mk_student ''s2'' (8/10) ''GEN'' 0,
               mk_student ''s3'' (7/10) ''GEN'' 1]
      | RURAL \<Rightarrow> [mk_student ''s3'' (7/10) ''GEN'' 1]
      | _ \<Rightarrow> [])"

text \<open>Two positions of one seat each, with the same single candidate in both general pools.\<close>

definition one_seat_row :: "string \<Rightarrow> row" where
  "one_seat_row iid = \<lparr>capacity = 1, cap_sc = 0, cap_st = 0, cap_obc = 0, cap_ur = 1,
                       cap_rural = 0, internship_id = iid\<rparr>"

definition one_candidate_ranklist :: ranklist where
  "one_candidate_ranklist =
     (\<lambda>c. case c of UR \<Rightarrow> [mk_student ''s1'' (9/10) ''GEN'' 0] | _ \<Rightarrow> [])"

definition shared_ranklists :: "string \<rightharpoonup> ranklist" where
  "shared_ranklists =
     [''I001'' \<mapsto> one_candidate_ranklist, ''I002'' \<mapsto> one_candidate_ranklist]"

text \<open>A capacity table with a second position that has no ranklist.\<close>

definition partial_ranklists :: "string \<rightharpoonup> ranklist" where
  "partial_ranklists = [''I001'' \<mapsto> one_candidate_ranklist]"

text \<open>
  Inputs of the multi-round engine: one position of capacity 1 whose vertical quotas add up to
  the capacity, with a rural quota of 1; and two positions competing for the same candidates.
\<close>

definition rural_extra_ranklists :: "(string \<times> info) list" where
  "rural_extra_ranklists =
     [(''I001'', \<lparr>capacity = 1, cap_sc = 0, cap_st = 0, cap_obc = 0, cap_ur = 1, cap_rural = 1,
        pools = (\<lambda>c. case c of
                   UR \<Rightarrow> [mk_entry ''a'' 1, mk_entry ''b'' (1/2)]
                 | RURAL \<Rightarrow> [mk_entry ''b'' (1/2)]
                 | _ \<Rightarrow> [])\<rparr>)]"

definition two_position_ranklists :: "(string \<times> info) list" where
  "two_position_ranklists =
     [(''I001'', \<lparr>capacity = 1, cap_sc = 0, cap_st = 0, cap_obc = 0, cap_ur = 1, cap_rural = 0,
        pools = (\<lambda>c. case c of
                   UR \<Rightarrow> [mk_entry ''a'' 1, mk_entry ''b'' (1/2), mk_entry ''c'' (1/4)]
                 | _ \<Rightarrow> [])\<rparr>),
      (''I002'', \<lparr>capacity = 1, cap_sc = 0, cap_st = 0, cap_obc = 0, cap_ur = 1, cap_rural = 0,
        pools = (\<lambda>c. case c of
                   UR \<Rightarrow> [mk_entry ''a'' 1, mk_entry ''b'' (1/2), mk_entry ''c'' (1/4)]
                 | _ \<Rightarrow> [])\<rparr>)]"

text \<open>Two iteration orders of the same set of identities.\<close>

definition order_up :: "string set \<Rightarrow> string list" where
  "order_up S = filter (\<lambda>s. s \<in> S) [''a'', ''b'', ''c'', ''d'']"

definition order_down :: "string set \<Rightarrow> string list" where
  "order_down S = filter (\<lambda>s. s \<in> S) [''d'', ''c'', ''b'', ''a'']"

definition four_candidate_ranklists :: "(string \<times> info) list" where
  "four_candidate_ranklists =
     [(''I001'', \<lparr>capacity = 1, cap_sc = 0, cap_st = 0, cap_obc = 0, cap_ur = 1, cap_rural = 0,
        pools = (\<lambda>c. case c of
                   UR \<Rightarrow> [mk_entry ''a'' 1, mk_entry ''b'' (1/2), mk_entry ''c'' (1/4)]
                 | _ \<Rightarrow> [])\<rparr>)]"

text \<open>Two rows of equal score, in both input orders.\<close>

definition tie_pairs :: "pair list" where
  "tie_pairs = [(''I001'', mk_student ''s2'' (1/2) ''GEN'' 0),
                (''I001'', mk_student ''s1'' (1/2) ''GEN'' 0)]"

section \<open>Multi-round engine: state predicates\<close>

text \<open>The identities confirmed at a position.\<close>

definition confirmed_ids :: "mr_state \<Rightarrow> string \<Rightarrow> string set" where
  "confirmed_ids st iid = set (map a_student_id (allocations st iid))"

text \<open>
  A category loop of a position has nothing left to do: its quota is filled or its pointer is
  at the end of the pool.
\<close>

definition cat_done :: "mr_state \<Rightarrow> string \<Rightarrow> info \<Rightarrow> category \<Rightarrow> bool" where
  "cat_done st iid info cat \<longleftrightarrow>
     cap_of cat info \<le> cat_count cat (allocations st iid)
     \<or> length (pools info cat) \<le> pointers st iid cat"

text \<open>
  Every confirmed record is booked in \<open>allocated_student\<close> under its position, and no position
  lists an identity twice.
\<close>

definition held_once :: "mr_state \<Rightarrow> bool" where
  "held_once st \<longleftrightarrow>
     (\<forall>iid. \<forall>a \<in> set (allocations st iid). allocated_student st (a_student_id a) = Some iid)
     \<and> (\<forall>iid. distinct (map a_student_id (allocations st iid)))"

definition within_quota :: "mr_state \<Rightarrow> string \<Rightarrow> info \<Rightarrow> bool" where
  "within_quota st iid info \<longleftrightarrow>
     (\<forall>cat. cat_count cat (allocations st iid) \<le> max 0 (cap_of cat info))"

text \<open>The five quotas of a position, a negative quota counting as none.\<close>

definition quota_sum :: "info \<Rightarrow> int" where
  "quota_sum info =
     max 0 (cap_sc info) + max 0 (cap_st info) + max 0 (cap_obc info) + max 0 (cap_ur info)
       + max 0 (cap_rural info)"

section \<open>Quota derivation: the sum invariant\<close>

text \<open>
  C6.  For every capacity the generator can draw (5 to 20; the bound 3 suffices), the vertical
  sub-quotas add up to the capacity exactly, no sub-quota is negative, and the rural
  sub-quota is at most the capacity.
\<close>

theorem generate_internships_caps_sum:
  assumes "3 \<le> cap"
  shows "cap_sc (generate_internships_caps cap) + cap_st (generate_internships_caps cap)
           + cap_obc (generate_internships_caps cap) + cap_ur (generate_internships_caps cap)
         = capacity (generate_internships_caps cap)
       \<and> 0 \<le> cap_sc (generate_internships_caps cap)
       \<and> 0 \<le> cap_st (generate_internships_caps cap)
       \<and> 0 \<le> cap_obc (generate_internships_caps cap)
       \<and> 0 \<le> cap_ur (generate_internships_caps cap)
       \<and> 0 \<le> cap_rural (generate_internships_caps cap)
       \<and> cap_rural (generate_internships_caps cap) \<le> capacity (generate_internships_caps cap)"
  using assms unfolding generate_internships_caps_def Let_def by (simp add: max_def) linarith

theorem generate_internships_caps_sum_witness:
  "cap_sc (generate_internships_caps 5) + cap_st (generate_internships_caps 5)
     + cap_obc (generate_internships_caps 5) + cap_ur (generate_internships_caps 5) = 5
   \<and> cap_ur (generate_internships_caps 5) = 2
   \<and> cap_rural (generate_internships_caps 5) = 1"
  using generate_internships_caps_sum [of 5]
  by (simp add: generate_internships_caps_def)

section \<open>Single-pass engine: list lemmas\<close>

lemmas optionC_defs =
  allot_position_def rural_pass_def rural_count_def vertical_fill_def fill_def dedupe_def
  unique_by_id_def slice_to_def

lemma length_slice_to: "0 \<le> n \<Longrightarrow> int (length (slice_to n xs)) \<le> n"
  by (simp add: slice_to_def)

lemma slice_to_fits: "int (length xs) \<le> n \<Longrightarrow> slice_to n xs = xs"
  by (simp add: slice_to_def)

lemma slice_to_pos: "0 \<le> n \<Longrightarrow> slice_to n xs = take (nat n) xs"
  by (simp add: slice_to_def)

lemma fill_Nil: "fill [] limit sel = sel"
  by (simp add: fill_def)

lemma fill_Cons:
  "fill (s # pool) limit sel = fill pool limit (if int (length sel) < limit then sel @ [s] else sel)"
  by (simp add: fill_def)

lemma length_fill:
  "length (fill pool limit sel) =
     (if limit \<le> int (length sel) then length sel
      else min (length sel + length pool) (nat limit))"
proof (induction pool arbitrary: sel)
  case Nil
  then show ?case by (simp add: fill_Nil)
next
  case (Cons s pool)
  show ?case
  proof (cases "int (length sel) < limit")
    case True
    then show ?thesis
      using Cons.IH [of "sel @ [s]"] by (simp add: fill_Cons) linarith
  next
    case False
    then show ?thesis
      using Cons.IH [of sel] by (simp add: fill_Cons)
  qed
qed

lemma set_update_cases:
  "p \<in> set (AList.update k v al) \<Longrightarrow> p = (k, v) \<or> p \<in> set al"
  by (induction al) (auto split: if_splits)

lemma unique_keys_distinct:
  "distinct (map fst d) \<Longrightarrow>
   distinct (map fst (foldl (\<lambda>d stu. AList.update (student_id stu) stu d) d sel))"
  by (induction sel arbitrary: d) (simp_all add: AList.distinct_update)

lemma unique_keys_are_ids:
  "\<forall>p \<in> set d. student_id (snd p) = fst p \<Longrightarrow>
   \<forall>p \<in> set (foldl (\<lambda>d stu. AList.update (student_id stu) stu d) d sel).
     student_id (snd p) = fst p"
proof (induction sel arbitrary: d)
  case Nil
  then show ?case by simp
next
  case (Cons stu sel)
  have "\<forall>p \<in> set (AList.update (student_id stu) stu d). student_id (snd p) = fst p"
    using Cons.prems set_update_cases [of _ "student_id stu" stu d] by fastforce
  then show ?case
    using Cons.IH by simp
qed

lemma distinct_dedupe: "distinct (map student_id (dedupe sel))"
proof -
  have ids: "\<forall>p \<in> set (unique_by_id sel). student_id (snd p) = fst p"
    unfolding unique_by_id_def by (rule unique_keys_are_ids) simp
  have "map student_id (dedupe sel) = map fst (unique_by_id sel)"
    using ids by (simp add: dedupe_def)
  moreover have "distinct (map fst (unique_by_id sel))"
    unfolding unique_by_id_def by (rule unique_keys_distinct) simp
  ultimately show ?thesis by simp
qed

lemma distinct_slice_to:
  "distinct (map f xs) \<Longrightarrow> distinct (map f (slice_to n xs))"
  by (simp add: slice_to_def take_map [symmetric] distinct_take del: take_map)

lemma distinct_vertical_fill: "distinct (map student_id (vertical_fill r rl))"
  unfolding vertical_fill_def Let_def by (rule distinct_slice_to) (rule distinct_dedupe)

lemma length_vertical_fill: "0 \<le> capacity r \<Longrightarrow> int (length (vertical_fill r rl)) \<le> capacity r"
  unfolding vertical_fill_def Let_def by (rule length_slice_to)

lemma foldl_remove:
  "foldl (\<lambda>sel r. filter (\<lambda>x. student_id x \<noteq> student_id r) sel) sel rs =
     filter (\<lambda>x. student_id x \<notin> student_id ` set rs) sel"
proof (induction rs arbitrary: sel)
  case Nil
  then show ?case by simp
next
  case (Cons r rs)
  have "filter (\<lambda>x. student_id x \<notin> student_id ` set rs)
          (filter (\<lambda>x. student_id x \<noteq> student_id r) sel) =
        filter (\<lambda>x. student_id x \<notin> student_id ` set (r # rs)) sel"
    by (simp add: conj_commute)
  then show ?case
    using Cons.IH [of "filter (\<lambda>x. student_id x \<noteq> student_id r) sel"] by simp
qed

lemma length_filter_removed:
  assumes "distinct (map f xs)" and "set ys \<subseteq> set xs" and "distinct ys"
  shows "length (filter (\<lambda>x. f x \<notin> f ` set ys) xs) = length xs - length ys"
proof -
  have inj: "inj_on f (set xs)" and dx: "distinct xs"
    using assms(1) by (simp_all add: distinct_map)
  have "set (filter (\<lambda>x. f x \<in> f ` set ys) xs) = set ys"
    using inj assms(2) by (auto dest: inj_onD)
  moreover have "distinct (filter (\<lambda>x. f x \<in> f ` set ys) xs)"
    using dx by simp
  ultimately have "length (filter (\<lambda>x. f x \<in> f ` set ys) xs) = length ys"
    using assms(3) by (metis distinct_card)
  moreover have "length (filter (\<lambda>x. f x \<in> f ` set ys) xs)
      + length (filter (\<lambda>x. \<not> f x \<in> f ` set ys) xs) = length xs"
    by (rule sum_length_filter_compl)
  ultimately show ?thesis by simp
qed

lemma rural_pass_noop: "\<not> rural_count sel < caprural \<Longrightarrow> rural_pass cap caprural rl sel = sel"
  by (simp add: rural_pass_def)

lemma length_rural_pass_swap:
  assumes d: "distinct (map student_id sel)"
    and fits: "int (length sel) \<le> cap"
    and short: "rural_count sel < caprural"
    and nr: "caprural - rural_count sel \<le> int (length (filter (\<lambda>x. rural x = 0) sel))"
    and pool: "caprural - rural_count sel
        \<le> int (length (filter (\<lambda>x. student_id x \<notin> set (map student_id sel)) rl))"
  shows "length (rural_pass cap caprural rl sel) = length sel"
proof -
  define n where "n = nat (caprural - rural_count sel)"
  define to_remove where "to_remove = take n (sort_key final_score (filter (\<lambda>x. rural x = 0) sel))"
  define to_add where
    "to_add = take n (filter (\<lambda>x. student_id x \<notin> set (map student_id sel)) rl)"
  define sel1 where "sel1 = filter (\<lambda>x. student_id x \<notin> student_id ` set to_remove) sel"
  have npos: "0 < n" and n_nr: "n \<le> length (filter (\<lambda>x. rural x = 0) sel)"
    and n_pool: "n \<le> length (filter (\<lambda>x. student_id x \<notin> set (map student_id sel)) rl)"
    using short nr pool by (simp_all add: n_def)
  have rp: "rural_pass cap caprural rl sel = fill to_add cap sel1"
    using short
    by (simp add: rural_pass_def Let_def slice_to_pos foldl_remove n_def to_remove_def
        to_add_def sel1_def)
  have len_rm: "length to_remove = n"
    using n_nr by (simp add: to_remove_def)
  have len_add: "length to_add = n"
    using n_pool by (simp add: to_add_def)
  have sub: "set to_remove \<subseteq> set sel"
    unfolding to_remove_def using set_take_subset [of n "sort_key final_score (filter (\<lambda>x. rural x = 0) sel)"]
    by auto
  have dsel: "distinct sel"
    using d by (simp add: distinct_map)
  have drm: "distinct to_remove"
    unfolding to_remove_def using dsel by (simp add: distinct_take)
  have len1: "length sel1 = length sel - n"
    unfolding sel1_def using length_filter_removed [OF d sub drm] len_rm by simp
  have n_le: "n \<le> length sel"
    using n_nr length_filter_le [of "\<lambda>x. rural x = 0" sel] by linarith
  have "length (fill to_add cap sel1) = length sel"
    using len1 len_add npos n_le fits by (simp add: length_fill)
  then show ?thesis
    by (simp add: rp)
qed

lemma length_rural_pass_ample:
  assumes d: "distinct (map student_id sel)"
    and fits: "int (length sel) \<le> cap"
    and pool: "caprural - rural_count sel
        \<le> int (length (filter (\<lambda>x. student_id x \<notin> set (map student_id sel)) rl))"
  shows "length sel \<le> length (rural_pass cap caprural rl sel)"
proof (cases "rural_count sel < caprural")
  case False
  then show ?thesis by (simp add: rural_pass_noop)
next
  case short: True
  define n where "n = nat (caprural - rural_count sel)"
  define to_remove where "to_remove = take n (sort_key final_score (filter (\<lambda>x. rural x = 0) sel))"
  define to_add where
    "to_add = take n (filter (\<lambda>x. student_id x \<notin> set (map student_id sel)) rl)"
  define sel1 where "sel1 = filter (\<lambda>x. student_id x \<notin> student_id ` set to_remove) sel"
  have n_pool: "n \<le> length (filter (\<lambda>x. student_id x \<notin> set (map student_id sel)) rl)"
    using short pool by (simp add: n_def)
  have rp: "rural_pass cap caprural rl sel = fill to_add cap sel1"
    using short
    by (simp add: rural_pass_def Let_def slice_to_pos foldl_remove n_def to_remove_def
        to_add_def sel1_def)
  have len_add: "length to_add = n"
    using n_pool by (simp add: to_add_def)
  have len_rm: "length to_remove \<le> n"
    by (simp add: to_remove_def)
  have "length to_remove \<le> length (filter (\<lambda>x. rural x = 0) sel)"
    by (simp add: to_remove_def)
  then have rm_le: "length to_remove \<le> length sel"
    using length_filter_le [of "\<lambda>x. rural x = 0" sel] by linarith
  have sub: "set to_remove \<subseteq> set sel"
    unfolding to_remove_def
    using set_take_subset [of n "sort_key final_score (filter (\<lambda>x. rural x = 0) sel)"]
    by auto
  have dsel: "distinct sel"
    using d by (simp add: distinct_map)
  have drm: "distinct to_remove"
    unfolding to_remove_def using dsel by (simp add: distinct_take)
  have len1: "length sel1 = length sel - length to_remove"
    unfolding sel1_def by (rule length_filter_removed [OF d sub drm])
  have "length sel \<le> length (fill to_add cap sel1)"
  proof (cases "cap \<le> int (length sel1)")
    case True
    with fits len1 rm_le have "length sel1 = length sel"
      by linarith
    with True show ?thesis
      by (simp add: length_fill)
  next
    case False
    have "length sel \<le> length sel1 + n"
      using len1 len_rm rm_le by linarith
    moreover have "length sel \<le> nat cap"
      using fits by linarith
    ultimately show ?thesis
      using False len_add by (simp add: length_fill)
  qed
  then show ?thesis
    by (simp add: rp)
qed

lemma loop_body_final_alloc:
  assumes "loop_body ranklists r st = Inr st'" and "p \<in> set (final_alloc st')"
  shows "p \<in> set (final_alloc st) \<or>
         (\<exists>rl. ranklists (internship_id r) = Some rl \<and> p = (internship_id r, allot_position r rl))"
  using assms
  by (auto simp: loop_body_def Let_def split: option.splits dest!: set_update_cases)

lemma optionC_loop_final_alloc:
  assumes "optionC_loop ranklists df st = Inr st'" and "p \<in> set (final_alloc st')"
  shows "p \<in> set (final_alloc st) \<or>
         (\<exists>r \<in> set df. \<exists>rl. ranklists (internship_id r) = Some rl \<and>
            p = (internship_id r, allot_position r rl))"
  using assms
proof (induction df arbitrary: st)
  case Nil
  then show ?case by simp
next
  case (Cons r df)
  from Cons.prems(1) obtain st1 where b: "loop_body ranklists r st = Inr st1"
    and l: "optionC_loop ranklists df st1 = Inr st'"
    by (auto split: sum.splits)
  from Cons.IH [OF l Cons.prems(2)] show ?case
  proof
    assume "p \<in> set (final_alloc st1)"
    from loop_body_final_alloc [OF b this] show ?case by auto
  next
    assume "\<exists>r \<in> set df. \<exists>rl. ranklists (internship_id r) = Some rl \<and>
               p = (internship_id r, allot_position r rl)"
    then show ?case by auto
  qed
qed

lemma optionC_loop_logs:
  "optionC_loop ranklists df st = Inr st' \<Longrightarrow>
     length (round_logs st') = length (round_logs st) + length df"
proof (induction df arbitrary: st)
  case Nil
  then show ?case by simp
next
  case (Cons r df)
  from Cons.prems obtain st1 where b: "loop_body ranklists r st = Inr st1"
    and l: "optionC_loop ranklists df st1 = Inr st'"
    by (auto split: sum.splits)
  have "length (round_logs st1) = length (round_logs st) + 1"
    using b by (auto simp: loop_body_def Let_def split: option.splits)
  then show ?case
    using Cons.IH [OF l] by simp
qed

lemma optionC_loop_present:
  "\<forall>q \<in> set df. ranklists (internship_id q) \<noteq> None \<Longrightarrow> \<exists>st'. optionC_loop ranklists df st = Inr st'"
  by (induction df arbitrary: st) (auto simp: loop_body_def Let_def split: option.splits)

lemma optionC_loop_first_missing:
  assumes "\<forall>q \<in> set pre. ranklists (internship_id q) \<noteq> None"
    and "ranklists (internship_id r) = None"
  shows "optionC_loop ranklists (pre @ r # post) st = Inl (KeyError (internship_id r))"
  using assms(1)
proof (induction pre arbitrary: st)
  case Nil
  then show ?case using assms(2) by (simp add: loop_body_def)
next
  case (Cons q pre)
  then show ?case by (auto simp: loop_body_def Let_def split: option.splits)
qed

section \<open>Single-pass engine: the scenario\<close>

text \<open>
  C4 (as stated, refuted).  On the scenario the engine does not end with s1, s2, s4, s6: the
  OBC loop runs up to the cumulative limit sc+st+obc, so s3 takes the vacant ST seat, and the
  final list is s1, s4, s5, s6: s2 is not confirmed and s5 is.
\<close>

theorem scenario_final_set_differs:
  "map student_id (allot_position scenario_row scenario_ranklist) = [''s1'', ''s4'', ''s5'', ''s6'']
   \<and> ''s2'' \<notin> set (map student_id (allot_position scenario_row scenario_ranklist))
   \<and> ''s5'' \<in> set (map student_id (allot_position scenario_row scenario_ranklist))"
  by (simp add: optionC_defs scenario_row_def scenario_ranklist_def mk_student_def)

text \<open>
  C4 (amended).  On the scenario the engine returns without an error; the vertical fill
  confirms s1, s2, s3, s4, s5; after the rural pass s6 is confirmed beside s1, s4 and s5, and
  s3 (the lowest-scored non-rural confirmation) is gone; the log reports one rural candidate
  against a rural quota of 2.
\<close>

theorem scenario_outcome:
  "map student_id (vertical_fill scenario_row scenario_ranklist)
     = [''s1'', ''s2'', ''s3'', ''s4'', ''s5'']
   \<and> (\<exists>st. optionC_allotment [''I001'' \<mapsto> scenario_ranklist] [scenario_row] = Inr st
        \<and> map fst (final_alloc st) = [''I001'']
        \<and> {''s1'', ''s4'', ''s5'', ''s6''} \<subseteq> student_id ` (\<Union>p \<in> set (final_alloc st). set (snd p))
        \<and> ''s3'' \<notin> student_id ` (\<Union>p \<in> set (final_alloc st). set (snd p))
        \<and> map rural_cap (round_logs st) = [2]
        \<and> map rural_selected (round_logs st) = [1])"
  by (simp add: optionC_allotment_def loop_body_def Let_def optionC_defs scenario_row_def
      scenario_ranklist_def mk_student_def)

section \<open>Single-pass engine: the rural pass and the confirmed count\<close>

text \<open>
  C3 (as stated, refuted).  The rural pass can raise the confirmed count: with a free seat
  left by the removal of a duplicate, it appends a rural candidate and removes nobody.
\<close>

theorem rural_pass_adds_member:
  "map student_id (vertical_fill free_seat_row free_seat_ranklist) = [''s1'']
   \<and> map student_id (allot_position free_seat_row free_seat_ranklist) = [''s1'', ''s2'']"
  by (simp add: optionC_defs free_seat_row_def free_seat_ranklist_def mk_student_def)

text \<open>
  C3 (amended).  For a position of non-negative capacity: the rural pass never leaves more
  confirmed candidates than the capacity; whenever the rural pool holds at least as many
  candidates outside the selection as the rural shortfall, the confirmed count after the pass
  is not lower than before; and the count is exactly unchanged when the rural count reaches
  the rural sub-quota, or when the pass is a full swap: the selection has at least as many
  non-rural members, and the rural pool at least as many candidates outside the selection, as
  the rural shortfall.
\<close>

theorem rural_pass_count:
  assumes "0 \<le> capacity r"
  shows "int (length (allot_position r rl)) \<le> capacity r
    \<and> (cap_rural r - rural_count (vertical_fill r rl)
          \<le> int (length (filter (\<lambda>x. student_id x \<notin> set (map student_id (vertical_fill r rl)))
                           (rl RURAL)))
       \<longrightarrow> length (vertical_fill r rl) \<le> length (allot_position r rl))
    \<and> ((cap_rural r \<le> rural_count (vertical_fill r rl)
         \<or> (cap_rural r - rural_count (vertical_fill r rl)
               \<le> int (length (filter (\<lambda>x. rural x = 0) (vertical_fill r rl)))
            \<and> cap_rural r - rural_count (vertical_fill r rl)
               \<le> int (length (filter (\<lambda>x. student_id x \<notin> set (map student_id (vertical_fill r rl)))
                                (rl RURAL)))))
       \<longrightarrow> length (allot_position r rl) = length (vertical_fill r rl))"
proof (intro conjI impI)
  show "int (length (allot_position r rl)) \<le> capacity r"
    unfolding allot_position_def using assms by (rule length_slice_to)
next
  define sel where "sel = vertical_fill r rl"
  assume "cap_rural r - rural_count (vertical_fill r rl)
          \<le> int (length (filter (\<lambda>x. student_id x \<notin> set (map student_id (vertical_fill r rl)))
                           (rl RURAL)))"
  then have pool: "cap_rural r - rural_count sel
          \<le> int (length (filter (\<lambda>x. student_id x \<notin> set (map student_id sel)) (rl RURAL)))"
    by (simp add: sel_def)
  have fits: "int (length sel) \<le> capacity r"
    unfolding sel_def using assms by (rule length_vertical_fill)
  have d: "distinct (map student_id sel)"
    unfolding sel_def by (rule distinct_vertical_fill)
  have ge: "length sel \<le> length (rural_pass (capacity r) (cap_rural r) (rl RURAL) sel)"
    using d fits pool by (rule length_rural_pass_ample)
  have a: "length sel \<le> nat (capacity r)"
    using fits by linarith
  have "length (allot_position r rl)
      = min (length (rural_pass (capacity r) (cap_rural r) (rl RURAL) sel)) (nat (capacity r))"
    using assms by (simp add: allot_position_def sel_def slice_to_def)
  with ge a show "length (vertical_fill r rl) \<le> length (allot_position r rl)"
    by (simp add: sel_def)
next
  define sel where "sel = vertical_fill r rl"
  assume c: "cap_rural r \<le> rural_count (vertical_fill r rl)
       \<or> (cap_rural r - rural_count (vertical_fill r rl)
               \<le> int (length (filter (\<lambda>x. rural x = 0) (vertical_fill r rl)))
            \<and> cap_rural r - rural_count (vertical_fill r rl)
               \<le> int (length (filter (\<lambda>x. student_id x \<notin> set (map student_id (vertical_fill r rl)))
                                (rl RURAL))))"
  have fits: "int (length sel) \<le> capacity r"
    unfolding sel_def using assms by (rule length_vertical_fill)
  have d: "distinct (map student_id sel)"
    unfolding sel_def by (rule distinct_vertical_fill)
  have "length (rural_pass (capacity r) (cap_rural r) (rl RURAL) sel) = length sel"
  proof (cases "rural_count sel < cap_rural r")
    case False
    then show ?thesis by (simp add: rural_pass_noop)
  next
    case True
    with c have "cap_rural r - rural_count sel \<le> int (length (filter (\<lambda>x. rural x = 0) sel))"
      and "cap_rural r - rural_count sel
               \<le> int (length (filter (\<lambda>x. student_id x \<notin> set (map student_id sel)) (rl RURAL)))"
      by (simp_all add: sel_def)
    with d fits True show ?thesis by (rule length_rural_pass_swap)
  qed
  then show "length (allot_position r rl) = length (vertical_fill r rl)"
    using fits by (simp add: allot_position_def sel_def slice_to_fits)
qed

theorem rural_pass_count_witness:
  "map student_id (vertical_fill swap_row swap_ranklist) = [''s1'', ''s2'']
   \<and> map student_id (allot_position swap_row swap_ranklist) = [''s1'', ''s3'']
   \<and> length (allot_position swap_row swap_ranklist) = length (vertical_fill swap_row swap_ranklist)
   \<and> length (vertical_fill free_seat_row free_seat_ranklist)
       \<le> length (allot_position free_seat_row free_seat_ranklist)"
  using rural_pass_count [of swap_row swap_ranklist]
    rural_pass_count [of free_seat_row free_seat_ranklist]
  by (simp add: optionC_defs swap_row_def swap_ranklist_def free_seat_row_def
      free_seat_ranklist_def mk_student_def)

section \<open>Single-pass engine: a second rural pass\<close>

text \<open>
  C7.  A second rural pass on the scenario's final list, whose rural pool is exhausted (its
  only candidate s6 is already selected) while the rural count 1 is below the quota 2, removes
  the non-rural member s1 and adds nobody.
\<close>

theorem second_rural_pass_removes:
  "filter (\<lambda>x. student_id x \<notin> set (map student_id (allot_position scenario_row scenario_ranklist)))
      (scenario_ranklist RURAL) = []
   \<and> map student_id (allot_position scenario_row scenario_ranklist) = [''s1'', ''s4'', ''s5'', ''s6'']
   \<and> map student_id
        (rural_pass 5 2 (scenario_ranklist RURAL) (allot_position scenario_row scenario_ranklist))
       = [''s4'', ''s5'', ''s6'']"
  by (simp add: optionC_defs scenario_row_def scenario_ranklist_def mk_student_def)

section \<open>Single-pass engine: a position without a ranklist\<close>

text \<open>
  C9 (as stated, refuted).  With a ranklist for the first position only, the first iteration
  of the loop completes (the position gets its confirmed list and its log entry) before the
  lookup of the second position raises.
\<close>

theorem raise_after_first_position:
  "(case loop_body partial_ranklists (one_seat_row ''I001'') \<lparr>final_alloc = [], round_logs = []\<rparr> of
      Inl e \<Rightarrow> False
    | Inr st \<Rightarrow> map (\<lambda>p. (fst p, map student_id (snd p))) (final_alloc st) = [(''I001'', [''s1''])]
         \<and> map selected_count (round_logs st) = [1])
   \<and> optionC_allotment partial_ranklists [one_seat_row ''I001'', one_seat_row ''I002'']
       = Inl (KeyError ''I002'')"
  by (simp add: optionC_allotment_def loop_body_def Let_def optionC_defs partial_ranklists_def
      one_seat_row_def one_candidate_ranklist_def mk_student_def)

text \<open>
  C9 (amended).  If some row of the capacity table has no ranklist, the engine raises KeyError
  for the first such row, when the loop reaches it: the rows before it have been processed by
  then, and no allocation is returned.
\<close>

theorem missing_ranklist_raises:
  assumes "\<exists>r \<in> set internships_df. ranklists (internship_id r) = None"
  shows "\<exists>pre r post st.
           internships_df = pre @ r # post
         \<and> ranklists (internship_id r) = None
         \<and> optionC_loop ranklists pre \<lparr>final_alloc = [], round_logs = []\<rparr> = Inr st
         \<and> length (round_logs st) = length pre
         \<and> optionC_allotment ranklists internships_df = Inl (KeyError (internship_id r))"
proof -
  from assms obtain pre r post where split: "internships_df = pre @ r # post"
    and miss: "ranklists (internship_id r) = None"
    and before: "\<forall>q \<in> set pre. ranklists (internship_id q) \<noteq> None"
    using split_list_first_prop [of internships_df "\<lambda>r. ranklists (internship_id r) = None"]
    by auto
  from optionC_loop_present [OF before]
  obtain st where st: "optionC_loop ranklists pre \<lparr>final_alloc = [], round_logs = []\<rparr> = Inr st"
    by blast
  have "length (round_logs st) = length pre"
    using optionC_loop_logs [OF st] by simp
  moreover have "optionC_allotment ranklists internships_df = Inl (KeyError (internship_id r))"
    unfolding optionC_allotment_def split by (rule optionC_loop_first_missing [OF before miss])
  ultimately show ?thesis
    using split miss st by blast
qed

theorem missing_ranklist_raises_witness:
  "\<exists>pre r post st.
       [one_seat_row ''I001'', one_seat_row ''I002''] = pre @ r # post
     \<and> partial_ranklists (internship_id r) = None
     \<and> optionC_loop partial_ranklists pre \<lparr>final_alloc = [], round_logs = []\<rparr> = Inr st
     \<and> length (round_logs st) = length pre
     \<and> optionC_allotment partial_ranklists [one_seat_row ''I001'', one_seat_row ''I002'']
         = Inl (KeyError (internship_id r))"
  by (rule missing_ranklist_raises) (simp add: partial_ranklists_def one_seat_row_def)

section \<open>Single-pass engine: shared candidates\<close>

text \<open>
  C2 (as stated, refuted).  \<open>optionC_allotment\<close> fills every position from its own ranklist
  only: two positions with the same candidate in their pools both confirm that candidate.
\<close>

theorem optionC_shares_candidate:
  "(case optionC_allotment shared_ranklists [one_seat_row ''I001'', one_seat_row ''I002''] of
      Inl e \<Rightarrow> False
    | Inr st \<Rightarrow> map (\<lambda>p. (fst p, map student_id (snd p))) (final_alloc st)
         = [(''I001'', [''s1'']), (''I002'', [''s1''])])"
  by (simp add: optionC_allotment_def loop_body_def Let_def optionC_defs shared_ranklists_def
      one_seat_row_def one_candidate_ranklist_def mk_student_def)

section \<open>Multi-round engine: the category loop\<close>

declare fill_category.simps [simp del]
declare rounds_loop.simps [simp del]

lemma advance_fields [simp]:
  "allocations (advance iid cat st) = allocations st"
  "allocated_student (advance iid cat st) = allocated_student st"
  "pointers (advance iid cat st) =
     (pointers st)(iid := (pointers st iid)(cat := pointers st iid cat + 1))"
  by (simp_all add: advance_def)

lemma confirm_fields [simp]:
  "pointers (confirm sl iid cat cand st) = pointers st"
  "allocated_student (confirm sl iid cat cand st) = (allocated_student st)(cand \<mapsto> iid)"
  "allocations (confirm sl iid cat cand st) =
     (allocations st)(iid := allocations st iid @
        [\<lparr>a_student_id = cand, a_category = cat, a_final_score = sl (cand, iid)\<rparr>])"
  by (simp_all add: confirm_def)

lemma fill_category_stop:
  "\<not> (cat_count cat (allocations st iid) < cap_of cat info
       \<and> pointers st iid cat < length (pools info cat))
   \<Longrightarrow> fill_category sl iid info cat st = st"
  by (subst fill_category.simps) auto

lemma fill_category_skip:
  "cat_count cat (allocations st iid) < cap_of cat info
   \<Longrightarrow> pointers st iid cat < length (pools info cat)
   \<Longrightarrow> allocated_student st (student_id (pools info cat ! pointers st iid cat)) \<noteq> None
   \<Longrightarrow> fill_category sl iid info cat st = fill_category sl iid info cat (advance iid cat st)"
  by (subst fill_category.simps) auto

lemma fill_category_take:
  "cat_count cat (allocations st iid) < cap_of cat info
   \<Longrightarrow> pointers st iid cat < length (pools info cat)
   \<Longrightarrow> allocated_student st (student_id (pools info cat ! pointers st iid cat)) = None
   \<Longrightarrow> fill_category sl iid info cat st =
         fill_category sl iid info cat
           (confirm sl iid cat (student_id (pools info cat ! pointers st iid cat))
              (advance iid cat st))"
  by (subst fill_category.simps) auto

text \<open>A property kept by both kinds of iteration is kept by the loop.\<close>

lemma fill_category_preserves:
  assumes init: "P st"
    and adv: "\<And>s. P s \<Longrightarrow> cat_count cat (allocations s iid) < cap_of cat info
        \<Longrightarrow> pointers s iid cat < length (pools info cat)
        \<Longrightarrow> allocated_student s (student_id (pools info cat ! pointers s iid cat)) \<noteq> None
        \<Longrightarrow> P (advance iid cat s)"
    and conf: "\<And>s. P s \<Longrightarrow> cat_count cat (allocations s iid) < cap_of cat info
        \<Longrightarrow> pointers s iid cat < length (pools info cat)
        \<Longrightarrow> allocated_student s (student_id (pools info cat ! pointers s iid cat)) = None
        \<Longrightarrow> P (confirm sl iid cat (student_id (pools info cat ! pointers s iid cat))
                 (advance iid cat s))"
  shows "P (fill_category sl iid info cat st)"
  using init
proof (induction "length (pools info cat) - pointers st iid cat" arbitrary: st rule: less_induct)
  case less
  show ?case
  proof (cases "cat_count cat (allocations st iid) < cap_of cat info
       \<and> pointers st iid cat < length (pools info cat)")
    case False
    then show ?thesis
      using less.prems by (simp add: fill_category_stop)
  next
    case True
    then have c: "cat_count cat (allocations st iid) < cap_of cat info"
      and p: "pointers st iid cat < length (pools info cat)"
      by simp_all
    have m: "length (pools info cat) - pointers (advance iid cat st) iid cat
        < length (pools info cat) - pointers st iid cat"
      using p by simp
    show ?thesis
    proof (cases "allocated_student st (student_id (pools info cat ! pointers st iid cat)) = None")
      case True
      let ?s = "confirm sl iid cat (student_id (pools info cat ! pointers st iid cat))
                  (advance iid cat st)"
      have "P ?s"
        using less.prems c p True by (rule conf)
      moreover have "length (pools info cat) - pointers ?s iid cat
          < length (pools info cat) - pointers st iid cat"
        using p by simp
      ultimately have "P (fill_category sl iid info cat ?s)"
        using less.hyps by blast
      then show ?thesis
        using c p True by (simp add: fill_category_take)
    next
      case False
      have "P (advance iid cat st)"
        using less.prems c p False by (rule adv)
      with m have "P (fill_category sl iid info cat (advance iid cat st))"
        using less.hyps by blast
      then show ?thesis
        using c p False by (simp add: fill_category_skip)
    qed
  qed
qed

lemma fill_category_done: "cat_done (fill_category sl iid info cat st) iid info cat"
proof (induction "length (pools info cat) - pointers st iid cat" arbitrary: st rule: less_induct)
  case less
  show ?case
  proof (cases "cat_count cat (allocations st iid) < cap_of cat info
       \<and> pointers st iid cat < length (pools info cat)")
    case False
    then show ?thesis
      by (auto simp: fill_category_stop cat_done_def)
  next
    case True
    then have c: "cat_count cat (allocations st iid) < cap_of cat info"
      and p: "pointers st iid cat < length (pools info cat)"
      by simp_all
    show ?thesis
    proof (cases "allocated_student st (student_id (pools info cat ! pointers st iid cat)) = None")
      case True
      let ?s = "confirm sl iid cat (student_id (pools info cat ! pointers st iid cat))
                  (advance iid cat st)"
      have "length (pools info cat) - pointers ?s iid cat
          < length (pools info cat) - pointers st iid cat"
        using p by simp
      then have "cat_done (fill_category sl iid info cat ?s) iid info cat"
        by (rule less.hyps)
      then show ?thesis
        using c p True by (simp add: fill_category_take)
    next
      case False
      have "length (pools info cat) - pointers (advance iid cat st) iid cat
          < length (pools info cat) - pointers st iid cat"
        using p by simp
      then have "cat_done (fill_category sl iid info cat (advance iid cat st)) iid info cat"
        by (rule less.hyps)
      then show ?thesis
        using c p False by (simp add: fill_category_skip)
    qed
  qed
qed

lemma fill_category_fixpoint:
  "cat_done st iid info cat \<Longrightarrow> fill_category sl iid info cat st = st"
  by (rule fill_category_stop) (auto simp: cat_done_def)

lemma cat_count_snoc:
  "cat_count c (al @ [a]) = cat_count c al + (if a_category a = c then 1 else 0)"
  by (simp add: cat_count_def)

text \<open>The loop of one position and category leaves all other pointers and counts alone.\<close>

lemma fill_category_frame:
  assumes "iid' \<noteq> iid \<or> cat' \<noteq> cat"
  shows "pointers (fill_category sl iid info cat st) iid' cat' = pointers st iid' cat'
       \<and> cat_count cat' (allocations (fill_category sl iid info cat st) iid')
           = cat_count cat' (allocations st iid')"
proof (rule fill_category_preserves [where P = "\<lambda>s.
          pointers s iid' cat' = pointers st iid' cat'
        \<and> cat_count cat' (allocations s iid') = cat_count cat' (allocations st iid')"])
  show "pointers st iid' cat' = pointers st iid' cat'
      \<and> cat_count cat' (allocations st iid') = cat_count cat' (allocations st iid')"
    by simp
next
  fix s :: mr_state
  assume "pointers s iid' cat' = pointers st iid' cat'
      \<and> cat_count cat' (allocations s iid') = cat_count cat' (allocations st iid')"
  then show "pointers (advance iid cat s) iid' cat' = pointers st iid' cat'
      \<and> cat_count cat' (allocations (advance iid cat s) iid') = cat_count cat' (allocations st iid')"
    using assms by auto
next
  fix s :: mr_state
  let ?s = "confirm sl iid cat (student_id (pools info cat ! pointers s iid cat)) (advance iid cat s)"
  assume "pointers s iid' cat' = pointers st iid' cat'
      \<and> cat_count cat' (allocations s iid') = cat_count cat' (allocations st iid')"
  then show "pointers ?s iid' cat' = pointers st iid' cat'
      \<and> cat_count cat' (allocations ?s iid') = cat_count cat' (allocations st iid')"
    using assms by (auto simp: cat_count_snoc)
qed

lemma fill_category_count_bound:
  "cat_count cat (allocations (fill_category sl iid info cat st) iid)
     \<le> max (cat_count cat (allocations st iid)) (cap_of cat info)"
proof (rule fill_category_preserves [where P = "\<lambda>s.
          cat_count cat (allocations s iid) \<le> max (cat_count cat (allocations st iid)) (cap_of cat info)"])
  show "cat_count cat (allocations st iid) \<le> max (cat_count cat (allocations st iid)) (cap_of cat info)"
    by simp
next
  fix s :: mr_state
  assume "cat_count cat (allocations s iid) \<le> max (cat_count cat (allocations st iid)) (cap_of cat info)"
  then show "cat_count cat (allocations (advance iid cat s) iid)
      \<le> max (cat_count cat (allocations st iid)) (cap_of cat info)"
    by simp
next
  fix s :: mr_state
  assume "cat_count cat (allocations s iid) < cap_of cat info"
  then show "cat_count cat
       (allocations (confirm sl iid cat (student_id (pools info cat ! pointers s iid cat))
          (advance iid cat s)) iid)
      \<le> max (cat_count cat (allocations st iid)) (cap_of cat info)"
    by (simp add: cat_count_snoc)
qed

lemma confirm_held_once:
  assumes h: "held_once s" and n: "allocated_student s c = None"
  shows "held_once (confirm sl iid cat c (advance iid cat s))"
proof -
  have booked: "\<And>i a. a \<in> set (allocations s i) \<Longrightarrow> allocated_student s (a_student_id a) = Some i"
    and dist: "\<And>i. distinct (map a_student_id (allocations s i))"
    using h by (simp_all add: held_once_def)
  have fresh: "a_student_id a \<noteq> c" if "a \<in> set (allocations s i)" for i a
  proof -
    from that have "allocated_student s (a_student_id a) = Some i" by (rule booked)
    with n show ?thesis by auto
  qed
  show ?thesis
    unfolding held_once_def
  proof (intro conjI allI ballI)
    fix i a
    assume a: "a \<in> set (allocations (confirm sl iid cat c (advance iid cat s)) i)"
    show "allocated_student (confirm sl iid cat c (advance iid cat s)) (a_student_id a) = Some i"
    proof (cases "a \<in> set (allocations s i)")
      case True
      with booked [OF True] fresh [OF True] show ?thesis by simp
    next
      case False
      with a have "i = iid" and "a_student_id a = c"
        by (auto split: if_splits)
      then show ?thesis by simp
    qed
  next
    fix i
    show "distinct (map a_student_id (allocations (confirm sl iid cat c (advance iid cat s)) i))"
      using dist [of i] fresh [of _ i] by auto
  qed
qed

lemma fill_category_held_once:
  assumes "held_once st"
  shows "held_once (fill_category sl iid info cat st)"
proof (rule fill_category_preserves [where P = held_once])
  show "held_once st" by (rule assms)
next
  fix s :: mr_state
  assume "held_once s"
  then show "held_once (advance iid cat s)"
    by (simp add: held_once_def)
next
  fix s :: mr_state
  assume "held_once s"
    and "allocated_student s (student_id (pools info cat ! pointers s iid cat)) = None"
  then show "held_once (confirm sl iid cat (student_id (pools info cat ! pointers s iid cat))
          (advance iid cat s))"
    by (rule confirm_held_once)
qed

lemma fill_category_cat_done:
  assumes "cat_done st iid' info' cat'"
    and "iid' \<noteq> iid \<or> cat' \<noteq> cat \<or> info' = info"
  shows "cat_done (fill_category sl iid info cat st) iid' info' cat'"
proof (cases "iid' \<noteq> iid \<or> cat' \<noteq> cat")
  case True
  from fill_category_frame [OF this, of sl info st] assms(1) show ?thesis
    by (simp add: cat_done_def)
next
  case False
  with assms(2) show ?thesis
    by (simp add: fill_category_done)
qed

lemma fill_category_within_quota:
  assumes "within_quota st iid' info'"
    and "iid' \<noteq> iid \<or> info' = info"
  shows "within_quota (fill_category sl iid info cat st) iid' info'"
  unfolding within_quota_def
proof
  fix c
  have old: "cat_count c (allocations st iid') \<le> max 0 (cap_of c info')"
    using assms(1) by (simp add: within_quota_def)
  show "cat_count c (allocations (fill_category sl iid info cat st) iid') \<le> max 0 (cap_of c info')"
  proof (cases "iid' \<noteq> iid \<or> c \<noteq> cat")
    case True
    from fill_category_frame [OF this, of sl info st] old show ?thesis
      by simp
  next
    case False
    with assms(2) have e: "iid' = iid" "c = cat" "info' = info"
      by auto
    show ?thesis
      using fill_category_count_bound [of cat sl iid info st] old unfolding e by linarith
  qed
qed

section \<open>Multi-round engine: one position, one round\<close>

lemma foldl_fill_preserves:
  assumes step: "\<And>s cat. P s \<Longrightarrow> P (fill_category sl iid info cat s)" and "P st"
  shows "P (foldl (\<lambda>s cat. fill_category sl iid info cat s) st cats)"
  using assms(2)
proof (induction cats arbitrary: st)
  case Nil
  then show ?case by simp
next
  case (Cons c cats)
  have "P (fill_category sl iid info c st)"
    using Cons.prems by (rule step)
  then have "P (foldl (\<lambda>s cat. fill_category sl iid info cat s) (fill_category sl iid info c st) cats)"
    by (rule Cons.IH)
  then show ?case by simp
qed

lemma allot_internship_preserves:
  assumes "\<And>s cat. P s \<Longrightarrow> P (fill_category sl (fst p) (snd p) cat s)" and "P st"
  shows "P (allot_internship sl st p)"
  unfolding allot_internship_def
  by (rule foldl_fill_preserves [where P = P, OF assms])

lemma foldl_fill_done:
  assumes "cat \<in> set cats \<or> cat_done st iid info cat"
  shows "cat_done (foldl (\<lambda>s c. fill_category sl iid info c s) st cats) iid info cat"
  using assms
proof (induction cats arbitrary: st)
  case Nil
  then show ?case by simp
next
  case (Cons c cats)
  have "cat \<in> set cats \<or> cat_done (fill_category sl iid info c st) iid info cat"
  proof (cases "c = cat")
    case True
    then show ?thesis by (simp add: fill_category_done)
  next
    case False
    with Cons.prems show ?thesis
      by (auto intro: fill_category_cat_done)
  qed
  then show ?case
    using Cons.IH by simp
qed

lemma allot_internship_done: "cat_done (allot_internship sl st p) (fst p) (snd p) cat"
  unfolding allot_internship_def by (rule foldl_fill_done) (cases cat; simp)

lemma allot_internship_cat_done:
  assumes "cat_done st iid' info' cat'" and "iid' \<noteq> fst p \<or> info' = snd p"
  shows "cat_done (allot_internship sl st p) iid' info' cat'"
proof (rule allot_internship_preserves [where P = "\<lambda>s. cat_done s iid' info' cat'"])
  fix s :: mr_state and cat
  assume "cat_done s iid' info' cat'"
  then show "cat_done (fill_category sl (fst p) (snd p) cat s) iid' info' cat'"
    by (rule fill_category_cat_done) (use assms(2) in auto)
qed (rule assms(1))

lemma allot_internship_within_quota:
  assumes "within_quota st iid' info'" and "iid' \<noteq> fst p \<or> info' = snd p"
  shows "within_quota (allot_internship sl st p) iid' info'"
proof (rule allot_internship_preserves [where P = "\<lambda>s. within_quota s iid' info'"])
  fix s :: mr_state and cat
  assume "within_quota s iid' info'"
  then show "within_quota (fill_category sl (fst p) (snd p) cat s) iid' info'"
    using assms(2) by (rule fill_category_within_quota)
qed (rule assms(1))

lemma allot_internship_held_once:
  assumes "held_once st"
  shows "held_once (allot_internship sl st p)"
proof (rule allot_internship_preserves [where P = held_once])
  fix s :: mr_state and cat
  assume "held_once s"
  then show "held_once (fill_category sl (fst p) (snd p) cat s)"
    by (rule fill_category_held_once)
qed (rule assms)

lemma allot_internship_fixpoint:
  "\<forall>cat. cat_done st (fst p) (snd p) cat \<Longrightarrow> allot_internship sl st p = st"
  by (simp add: allot_internship_def fill_category_fixpoint)

lemma foldl_allot_preserves:
  assumes step: "\<And>s p. p \<in> set ranklists \<Longrightarrow> P s \<Longrightarrow> P (allot_internship sl s p)"
    and "P st" and "set ps \<subseteq> set ranklists"
  shows "P (foldl (allot_internship sl) st ps)"
  using assms(2,3)
proof (induction ps arbitrary: st)
  case Nil
  then show ?case by simp
next
  case (Cons p ps)
  have "p \<in> set ranklists"
    using Cons.prems(2) by simp
  then have "P (allot_internship sl st p)"
    using Cons.prems(1) by (rule step)
  moreover have "set ps \<subseteq> set ranklists"
    using Cons.prems(2) by simp
  ultimately have "P (foldl (allot_internship sl) (allot_internship sl st p) ps)"
    by (rule Cons.IH)
  then show ?case by simp
qed

lemma distinct_keys:
  "distinct (map fst ranklists) \<Longrightarrow> p \<in> set ranklists \<Longrightarrow> q \<in> set ranklists
   \<Longrightarrow> fst q \<noteq> fst p \<or> snd q = snd p"
  by (metis distinct_map inj_onD)

lemma foldl_allot_done:
  assumes d: "distinct (map fst ranklists)" and q: "q \<in> set ranklists"
    and "set ps \<subseteq> set ranklists"
    and "q \<in> set ps \<or> (\<forall>cat. cat_done st (fst q) (snd q) cat)"
  shows "cat_done (foldl (allot_internship sl) st ps) (fst q) (snd q) cat"
  using assms(3,4)
proof (induction ps arbitrary: st)
  case Nil
  then show ?case by simp
next
  case (Cons p ps)
  have p: "p \<in> set ranklists"
    using Cons.prems(1) by simp
  have "q \<in> set ps \<or> (\<forall>cat. cat_done (allot_internship sl st p) (fst q) (snd q) cat)"
  proof (cases "q = p")
    case True
    then show ?thesis by (simp add: allot_internship_done)
  next
    case False
    with Cons.prems(2) distinct_keys [OF d p q] show ?thesis
      by (auto intro: allot_internship_cat_done)
  qed
  moreover have "set ps \<subseteq> set ranklists"
    using Cons.prems(1) by simp
  ultimately show ?case
    using Cons.IH by simp
qed

lemma foldl_allot_fixpoint:
  "\<forall>p \<in> set ps. \<forall>cat. cat_done st (fst p) (snd p) cat
   \<Longrightarrow> foldl (allot_internship sl) st ps = st"
proof (induction ps)
  case Nil
  then show ?case by simp
next
  case (Cons p ps)
  have "\<forall>cat. cat_done st (fst p) (snd p) cat"
    using Cons.prems by simp
  then have "allot_internship sl st p = st"
    by (rule allot_internship_fixpoint)
  then show ?case
    using Cons by simp
qed

lemma cat_done_reset [simp]:
  "cat_done (st\<lparr>round_allocated := ra, round_cat_counts := rc\<rparr>) iid info cat
     = cat_done st iid info cat"
  by (simp add: cat_done_def)

lemma held_once_reset [simp]:
  "held_once (st\<lparr>round_allocated := ra, round_cat_counts := rc\<rparr>) = held_once st"
  by (simp add: held_once_def)

lemma within_quota_reset [simp]:
  "within_quota (st\<lparr>round_allocated := ra, round_cat_counts := rc\<rparr>) iid info
     = within_quota st iid info"
  by (simp add: within_quota_def)

lemma round_pass_done:
  assumes "distinct (map fst ranklists)" and "p \<in> set ranklists"
  shows "cat_done (round_pass sl ranklists st) (fst p) (snd p) cat"
  unfolding round_pass_def by (rule foldl_allot_done [OF assms]) (simp_all add: assms(2))

lemma round_pass_fixpoint:
  assumes "\<forall>p \<in> set ranklists. \<forall>cat. cat_done st (fst p) (snd p) cat"
  shows "round_pass sl ranklists st = st\<lparr>round_allocated := [], round_cat_counts := []\<rparr>"
  unfolding round_pass_def by (rule foldl_allot_fixpoint) (simp add: assms)

lemma round_pass_held_once: "held_once st \<Longrightarrow> held_once (round_pass sl ranklists st)"
  unfolding round_pass_def
  by (rule foldl_allot_preserves [where ranklists = ranklists and P = held_once])
     (simp_all add: allot_internship_held_once)

lemma round_pass_within_quota:
  assumes d: "distinct (map fst ranklists)" and q: "q \<in> set ranklists"
    and w: "within_quota st (fst q) (snd q)"
  shows "within_quota (round_pass sl ranklists st) (fst q) (snd q)"
  unfolding round_pass_def
proof (rule foldl_allot_preserves [where ranklists = ranklists
      and P = "\<lambda>s. within_quota s (fst q) (snd q)"])
  fix s :: mr_state and p
  assume "p \<in> set ranklists" and "within_quota s (fst q) (snd q)"
  then show "within_quota (allot_internship sl s p) (fst q) (snd q)"
    using distinct_keys [OF d _ q] by (intro allot_internship_within_quota) auto
qed (simp_all add: w)

section \<open>Multi-round engine: the round loop\<close>

lemma rounds_loop_preserves:
  assumes "\<And>s. P s \<Longrightarrow> P (round_pass sl ranklists s)" and "P st"
  shows "P (fst (rounds_loop sl ranklists max_rounds rounds st logs))"
  using assms(2)
proof (induction "nat (max_rounds - rounds)" arbitrary: rounds st logs rule: less_induct)
  case less
  show ?case
  proof (cases "rounds < max_rounds")
    case False
    then show ?thesis
      using less.prems by (subst rounds_loop.simps) simp
  next
    case True
    have step: "P (round_pass sl ranklists st)"
      using less.prems by (rule assms(1))
    show ?thesis
    proof (cases "total_allocated_this_round (round_pass sl ranklists st) = 0")
      case z: True
      show ?thesis
        using True z step by (subst rounds_loop.simps) simp
    next
      case nz: False
      have "nat (max_rounds - (rounds + 1)) < nat (max_rounds - rounds)"
        using True by simp
      from less.hyps [OF this step] show ?thesis
        using True nz by (subst rounds_loop.simps) simp
    qed
  qed
qed

lemma funpow_preserves:
  assumes step: "\<And>s. P s \<Longrightarrow> P (f s)" and "P st"
  shows "P ((f ^^ n) st)"
proof (induction n)
  case 0
  then show ?case by (simp add: assms(2))
next
  case (Suc n)
  then have "P (f ((f ^^ n) st))" by (rule step)
  then show ?case by simp
qed

lemma mr_init_held_once: "held_once mr_init"
  by (simp add: held_once_def mr_init_def)

lemma mr_init_within_quota: "within_quota mr_init iid info"
  by (simp add: within_quota_def mr_init_def cat_count_def)

lemma held_once_disjoint:
  assumes "held_once st" and "i \<noteq> j"
  shows "confirmed_ids st i \<inter> confirmed_ids st j = {}"
proof (rule ccontr)
  assume "confirmed_ids st i \<inter> confirmed_ids st j \<noteq> {}"
  then obtain a b where "a \<in> set (allocations st i)" and "b \<in> set (allocations st j)"
    and "a_student_id a = a_student_id b"
    by (auto simp: confirmed_ids_def)
  with assms(1) have "Some i = Some j"
    by (metis held_once_def)
  with assms(2) show False by simp
qed

lemma length_by_category:
  "int (length al) = cat_count SC al + cat_count ST al + cat_count OBC al + cat_count UR al
      + cat_count RURAL al"
proof (induction al)
  case Nil
  then show ?case by (simp add: cat_count_def)
next
  case (Cons a al)
  then show ?case
    by (cases "a_category a") (simp_all add: cat_count_def)
qed

lemma within_quota_length:
  assumes "within_quota st iid info"
  shows "int (length (allocations st iid)) \<le> quota_sum info"
proof -
  have "cat_count SC (allocations st iid) \<le> max 0 (cap_sc info)"
    and "cat_count ST (allocations st iid) \<le> max 0 (cap_st info)"
    and "cat_count OBC (allocations st iid) \<le> max 0 (cap_obc info)"
    and "cat_count UR (allocations st iid) \<le> max 0 (cap_ur info)"
    and "cat_count RURAL (allocations st iid) \<le> max 0 (cap_rural info)"
    using assms [unfolded within_quota_def, rule_format, of SC]
      assms [unfolded within_quota_def, rule_format, of ST]
      assms [unfolded within_quota_def, rule_format, of OBC]
      assms [unfolded within_quota_def, rule_format, of UR]
      assms [unfolded within_quota_def, rule_format, of RURAL]
    by simp_all
  then show ?thesis
    unfolding quota_sum_def length_by_category [of "allocations st iid"] by linarith
qed

text \<open>With a round cap of at least 2 the loop stops after the second round at the latest.\<close>

lemma round_two_idle:
  assumes "distinct (map fst ranklists)"
  shows "round_pass sl ranklists (round_pass sl ranklists st)
     = (round_pass sl ranklists st)\<lparr>round_allocated := [], round_cat_counts := []\<rparr>"
  by (rule round_pass_fixpoint) (simp add: round_pass_done [OF assms])

lemma rounds_loop_cap_one:
  "rounds_loop sl ranklists 1 0 st [] =
     (round_pass sl ranklists st, [round_summary 1 (round_pass sl ranklists st)])"
  by (subst rounds_loop.simps, subst rounds_loop.simps) simp

lemma rounds_loop_cap_two:
  assumes "distinct (map fst ranklists)" and "2 \<le> max_rounds"
  shows "rounds_loop sl ranklists max_rounds 0 st [] =
     (if total_allocated_this_round (round_pass sl ranklists st) = 0
      then (round_pass sl ranklists st, [round_summary 1 (round_pass sl ranklists st)])
      else ((round_pass sl ranklists st)\<lparr>round_allocated := [], round_cat_counts := []\<rparr>,
            [round_summary 1 (round_pass sl ranklists st),
             round_summary 2
               ((round_pass sl ranklists st)\<lparr>round_allocated := [], round_cat_counts := []\<rparr>)]))"
  using assms(2)
  by (subst rounds_loop.simps, subst rounds_loop.simps)
     (simp add: round_two_idle [OF assms(1)] total_allocated_this_round_def)

lemmas multi_round_defs =
  multi_round_allotment_def rounds_loop.simps round_pass_def allot_internship_def
  fill_category.simps total_allocated_this_round_def round_summary_def confirm_def advance_def
  cat_count_def dd_append_def dd_get_def dd_incr_def mr_init_def mk_entry_def all_students_def

section \<open>Multi-round engine: the second round\<close>

text \<open>
  C10.  With a round cap of at least 2 the multi-round allocator is at a fixpoint after its
  first round: the round log has at most two entries and its last entry reports nobody
  allocated; its first entry, the final allocations and the unallocated students are those of
  a run with round cap 1.
\<close>

theorem second_round_is_idle:
  assumes "distinct (map fst ranklists)" and "2 \<le> max_rounds"
  shows "res_allocations (multi_round_allotment so sl ranklists max_rounds)
           = res_allocations (multi_round_allotment so sl ranklists 1)
       \<and> unallocated_students (multi_round_allotment so sl ranklists max_rounds)
           = unallocated_students (multi_round_allotment so sl ranklists 1)
       \<and> res_round_logs (multi_round_allotment so sl ranklists max_rounds) \<noteq> []
       \<and> length (res_round_logs (multi_round_allotment so sl ranklists max_rounds)) \<le> 2
       \<and> total_allocated (last (res_round_logs (multi_round_allotment so sl ranklists max_rounds))) = 0
       \<and> take 1 (res_round_logs (multi_round_allotment so sl ranklists max_rounds))
           = res_round_logs (multi_round_allotment so sl ranklists 1)"
  by (simp add: multi_round_allotment_def Let_def rounds_loop_cap_two [OF assms]
      rounds_loop_cap_one round_summary_def total_allocated_this_round_def)

theorem second_round_is_idle_witness:
  "res_allocations (multi_round_allotment order_up Map.empty two_position_ranklists 10)
     = res_allocations (multi_round_allotment order_up Map.empty two_position_ranklists 1)
   \<and> length (res_round_logs (multi_round_allotment order_up Map.empty two_position_ranklists 10)) \<le> 2
   \<and> total_allocated
       (last (res_round_logs (multi_round_allotment order_up Map.empty two_position_ranklists 10))) = 0"
proof -
  have d: "distinct (map fst two_position_ranklists)"
    by (simp add: two_position_ranklists_def)
  have m: "(2::int) \<le> 10"
    by simp
  from second_round_is_idle [OF d m, where so = order_up and sl = Map.empty]
  show ?thesis by blast
qed

section \<open>Multi-round engine: one position per candidate\<close>

text \<open>
  C2 (amended).  In \<open>multi_round_allotment\<close>, at every round boundary and in the output, no
  identity is confirmed at two distinct positions, and no position lists an identity twice.
  (\<open>optionC_allotment\<close> fills every position without looking at the others.)
\<close>

theorem one_position_per_candidate:
  "(\<forall>n i j. i \<noteq> j \<longrightarrow>
       confirmed_ids ((round_pass sl ranklists ^^ n) mr_init) i
         \<inter> confirmed_ids ((round_pass sl ranklists ^^ n) mr_init) j = {})
   \<and> (\<forall>n i. distinct (map a_student_id (allocations ((round_pass sl ranklists ^^ n) mr_init) i)))
   \<and> (\<forall>p \<in> set (res_allocations (multi_round_allotment so sl ranklists max_rounds)).
        \<forall>q \<in> set (res_allocations (multi_round_allotment so sl ranklists max_rounds)).
          fst p \<noteq> fst q \<longrightarrow>
            set (map a_student_id (snd p)) \<inter> set (map a_student_id (snd q)) = {})
   \<and> (\<forall>p \<in> set (res_allocations (multi_round_allotment so sl ranklists max_rounds)).
        distinct (map a_student_id (snd p)))"
proof (intro conjI allI impI ballI)
  fix n i j
  assume "i \<noteq> (j::string)"
  have "held_once ((round_pass sl ranklists ^^ n) mr_init)"
    by (rule funpow_preserves [where P = held_once])
       (simp_all add: round_pass_held_once mr_init_held_once)
  then show "confirmed_ids ((round_pass sl ranklists ^^ n) mr_init) i
         \<inter> confirmed_ids ((round_pass sl ranklists ^^ n) mr_init) j = {}"
    using \<open>i \<noteq> j\<close> by (rule held_once_disjoint)
next
  fix n i
  have "held_once ((round_pass sl ranklists ^^ n) mr_init)"
    by (rule funpow_preserves [where P = held_once])
       (simp_all add: round_pass_held_once mr_init_held_once)
  then show "distinct (map a_student_id (allocations ((round_pass sl ranklists ^^ n) mr_init) i))"
    by (simp add: held_once_def)
next
  fix p q
  define fin where "fin = fst (rounds_loop sl ranklists max_rounds 0 mr_init [])"
  assume "p \<in> set (res_allocations (multi_round_allotment so sl ranklists max_rounds))"
    and "q \<in> set (res_allocations (multi_round_allotment so sl ranklists max_rounds))"
    and ne: "fst p \<noteq> fst q"
  then have p: "snd p = allocations fin (fst p)" and q: "snd q = allocations fin (fst q)"
    by (auto simp: multi_round_allotment_def Let_def fin_def)
  have "held_once fin"
    unfolding fin_def
    by (rule rounds_loop_preserves [where P = held_once])
       (simp_all add: round_pass_held_once mr_init_held_once)
  from held_once_disjoint [OF this ne]
  show "set (map a_student_id (snd p)) \<inter> set (map a_student_id (snd q)) = {}"
    by (simp add: confirmed_ids_def p q)
next
  fix p
  define fin where "fin = fst (rounds_loop sl ranklists max_rounds 0 mr_init [])"
  assume "p \<in> set (res_allocations (multi_round_allotment so sl ranklists max_rounds))"
  then have p: "snd p = allocations fin (fst p)"
    by (auto simp: multi_round_allotment_def Let_def fin_def)
  have "held_once fin"
    unfolding fin_def
    by (rule rounds_loop_preserves [where P = held_once])
       (simp_all add: round_pass_held_once mr_init_held_once)
  then show "distinct (map a_student_id (snd p))"
    by (simp add: held_once_def p)
qed

theorem one_position_per_candidate_witness:
  "confirmed_ids ((round_pass Map.empty two_position_ranklists ^^ 2) mr_init) ''I001''
     \<inter> confirmed_ids ((round_pass Map.empty two_position_ranklists ^^ 2) mr_init) ''I002'' = {}"
proof -
  have ne: "''I001'' \<noteq> ''I002''"
    by simp
  show ?thesis
    by (rule one_position_per_candidate [where sl = Map.empty
          and ranklists = two_position_ranklists, THEN conjunct1, rule_format, OF ne])
qed

section \<open>Confirmed counts\<close>

text \<open>
  C1 (as stated, refuted).  \<open>multi_round_allotment\<close> never reads the capacity: the rural quota
  is a fifth category filled after the four vertical ones.  A position of capacity 1 with
  quotas ur=1 and rural=1 ends with two confirmed candidates.
\<close>

theorem multi_round_exceeds_capacity:
  "map (\<lambda>p. (fst p, capacity (snd p))) rural_extra_ranklists = [(''I001'', 1)]
   \<and> map (\<lambda>p. (fst p, map a_student_id (snd p)))
       (res_allocations (multi_round_allotment order_up Map.empty rural_extra_ranklists 10))
     = [(''I001'', [''a'', ''b''])]"
  by (simp add: multi_round_defs rural_extra_ranklists_def)

text \<open>
  C1 (amended).  In \<open>multi_round_allotment\<close>, at every round boundary and at termination, every
  position holds at most cap_sc + cap_st + cap_obc + cap_ur + cap_rural confirmed candidates
  (a negative quota counting as 0).  In \<open>optionC_allotment\<close>, every returned position holds at
  most as many confirmed candidates as the capacity of a row with its identity, when no
  capacity is negative.
\<close>

theorem confirmed_count_bounds:
  assumes "distinct (map fst ranklists)"
  shows "(\<forall>n. \<forall>p \<in> set ranklists.
           int (length (allocations ((round_pass sl ranklists ^^ n) mr_init) (fst p)))
             \<le> quota_sum (snd p))
    \<and> list_all2 (\<lambda>p a. fst a = fst p \<and> int (length (snd a)) \<le> quota_sum (snd p))
        ranklists (res_allocations (multi_round_allotment so sl ranklists max_rounds))
    \<and> ((\<forall>r \<in> set internships_df. 0 \<le> capacity r)
         \<and> optionC_allotment tab internships_df = Inr st
       \<longrightarrow> (\<forall>a \<in> set (final_alloc st).
              \<exists>r \<in> set internships_df.
                internship_id r = fst a \<and> int (length (snd a)) \<le> capacity r))"
proof (intro conjI allI ballI impI)
  fix n p
  assume p: "p \<in> set ranklists"
  have "within_quota ((round_pass sl ranklists ^^ n) mr_init) (fst p) (snd p)"
    by (rule funpow_preserves [where P = "\<lambda>s. within_quota s (fst p) (snd p)"])
       (simp_all add: round_pass_within_quota [OF assms p] mr_init_within_quota)
  then show "int (length (allocations ((round_pass sl ranklists ^^ n) mr_init) (fst p)))
      \<le> quota_sum (snd p)"
    by (rule within_quota_length)
next
  have "int (length (allocations (fst (rounds_loop sl ranklists max_rounds 0 mr_init [])) (fst p)))
      \<le> quota_sum (snd p)" if p: "p \<in> set ranklists" for p
  proof -
    have "within_quota (fst (rounds_loop sl ranklists max_rounds 0 mr_init [])) (fst p) (snd p)"
      by (rule rounds_loop_preserves [where P = "\<lambda>s. within_quota s (fst p) (snd p)"])
         (simp_all add: round_pass_within_quota [OF assms p] mr_init_within_quota)
    then show ?thesis
      by (rule within_quota_length)
  qed
  then show "list_all2 (\<lambda>p a. fst a = fst p \<and> int (length (snd a)) \<le> quota_sum (snd p))
        ranklists (res_allocations (multi_round_allotment so sl ranklists max_rounds))"
    by (simp add: multi_round_allotment_def Let_def list_all2_map2 list_all2_same)
next
  fix a
  assume h: "(\<forall>r \<in> set internships_df. 0 \<le> capacity r)
         \<and> optionC_allotment tab internships_df = Inr st"
    and a: "a \<in> set (final_alloc st)"
  from h have run: "optionC_loop tab internships_df \<lparr>final_alloc = [], round_logs = []\<rparr> = Inr st"
    by (simp add: optionC_allotment_def)
  from optionC_loop_final_alloc [OF run a]
  obtain r rl where r: "r \<in> set internships_df" and e: "a = (internship_id r, allot_position r rl)"
    by auto
  from h r have "0 \<le> capacity r"
    by simp
  then have "int (length (allot_position r rl)) \<le> capacity r"
    unfolding allot_position_def by (rule length_slice_to)
  with r e show "\<exists>r \<in> set internships_df.
      internship_id r = fst a \<and> int (length (snd a)) \<le> capacity r"
    by auto
qed

theorem confirmed_count_bounds_witness:
  "list_all2 (\<lambda>p a. fst a = fst p \<and> int (length (snd a)) \<le> quota_sum (snd p))
     rural_extra_ranklists
     (res_allocations (multi_round_allotment order_up Map.empty rural_extra_ranklists 10))
   \<and> map (\<lambda>p. quota_sum (snd p)) rural_extra_ranklists = [2]"
proof (rule conjI)
  have d: "distinct (map fst rural_extra_ranklists)"
    by (simp add: rural_extra_ranklists_def)
  show "list_all2 (\<lambda>p a. fst a = fst p \<and> int (length (snd a)) \<le> quota_sum (snd p))
     rural_extra_ranklists
     (res_allocations (multi_round_allotment order_up Map.empty rural_extra_ranklists 10))"
    by (rule confirmed_count_bounds [OF d, THEN conjunct2, THEN conjunct1])
  show "map (\<lambda>p. quota_sum (snd p)) rural_extra_ranklists = [2]"
    by (simp add: rural_extra_ranklists_def quota_sum_def)
qed

section \<open>Multi-round engine: two runs on the same input\<close>

text \<open>
  C8 (as stated, refuted).  The list of unallocated students is the listing of a Python set:
  two runs that differ in the iteration order of that set only return the same identities in
  different orders.
\<close>

theorem unallocated_order_differs:
  "unallocated_students (multi_round_allotment order_up Map.empty four_candidate_ranklists 10)
     = [''b'', ''c'']
   \<and> unallocated_students (multi_round_allotment order_down Map.empty four_candidate_ranklists 10)
     = [''c'', ''b'']"
  by (simp add: multi_round_defs four_candidate_ranklists_def order_up_def order_down_def)

text \<open>
  C8 (amended).  Two runs of \<open>multi_round_allotment\<close> on identical inputs return the same
  allocation table and the same round log sequence, whatever the iteration order of sets;
  their lists of unallocated students hold the same identities when the two set orders list
  the same elements.
\<close>

theorem outputs_up_to_set_order:
  "res_allocations (multi_round_allotment so1 sl ranklists max_rounds)
     = res_allocations (multi_round_allotment so2 sl ranklists max_rounds)
   \<and> res_round_logs (multi_round_allotment so1 sl ranklists max_rounds)
     = res_round_logs (multi_round_allotment so2 sl ranklists max_rounds)
   \<and> ((\<forall>S. set (so1 S) = set (so2 S)) \<longrightarrow>
        set (unallocated_students (multi_round_allotment so1 sl ranklists max_rounds))
          = set (unallocated_students (multi_round_allotment so2 sl ranklists max_rounds)))"
  by (simp add: multi_round_allotment_def Let_def)

theorem outputs_up_to_set_order_witness:
  "res_round_logs (multi_round_allotment order_up Map.empty four_candidate_ranklists 10)
     = res_round_logs (multi_round_allotment order_down Map.empty four_candidate_ranklists 10)
   \<and> set (unallocated_students (multi_round_allotment order_up Map.empty four_candidate_ranklists 10))
     = set (unallocated_students
         (multi_round_allotment order_down Map.empty four_candidate_ranklists 10))"
proof (rule conjI)
  show "res_round_logs (multi_round_allotment order_up Map.empty four_candidate_ranklists 10)
     = res_round_logs (multi_round_allotment order_down Map.empty four_candidate_ranklists 10)"
    by (rule outputs_up_to_set_order [THEN conjunct2, THEN conjunct1])
  have s: "\<forall>S. set (order_up S) = set (order_down S)"
    by (auto simp: order_up_def order_down_def)
  show "set (unallocated_students (multi_round_allotment order_up Map.empty four_candidate_ranklists 10))
     = set (unallocated_students
         (multi_round_allotment order_down Map.empty four_candidate_ranklists 10))"
    by (rule outputs_up_to_set_order [THEN conjunct2, THEN conjunct2, THEN mp, OF s])
qed

section \<open>RankList builder: the order of a pool\<close>

lemma sort_values_desc:
  assumes "argsort_desc argsort"
  shows "sorted_wrt (\<lambda>p q. final_score (snd q) \<le> final_score (snd p)) (sort_values argsort df)"
proof -
  define ks where "ks = map (\<lambda>p. final_score (snd p)) df"
  have inr: "\<forall>i \<in> set (argsort ks). i < length ks"
    and srt: "sorted_wrt (\<lambda>i j. ks ! j \<le> ks ! i) (argsort ks)"
    using assms by (simp_all add: argsort_desc_def)
  have "sorted_wrt (\<lambda>i j. final_score (snd (df ! j)) \<le> final_score (snd (df ! i))) (argsort ks)"
  proof (rule sorted_wrt_mono_rel [OF _ srt])
    fix i j
    assume "i \<in> set (argsort ks)" and "j \<in> set (argsort ks)" and "ks ! j \<le> ks ! i"
    with inr show "final_score (snd (df ! j)) \<le> final_score (snd (df ! i))"
      by (simp add: ks_def)
  qed
  then show ?thesis
    by (simp add: sort_values_def sorted_wrt_map ks_def)
qed

lemma argsort_backwards_desc: "argsort_desc argsort_backwards"
  unfolding argsort_desc_def
proof (intro allI conjI)
  fix ks :: "real list"
  show "\<forall>i \<in> set (argsort_backwards ks). i < length ks"
    by (simp add: argsort_backwards_def)
  show "sorted_wrt (\<lambda>i j. ks ! j \<le> ks ! i) (argsort_backwards ks)"
    using sorted_sort_key [of "\<lambda>i. ks ! i" "[0..<length ks]"]
    by (simp add: argsort_backwards_def sorted_wrt_rev sorted_map)
qed

lemma pools_of_score_desc:
  assumes "sorted_wrt (\<lambda>p q. final_score (snd q) \<le> final_score (snd p)) sub"
  shows "score_desc (pools_of sub c)"
  using assms
  by (cases c) (simp_all add: pools_of_def make_struct_def score_desc_def sorted_wrt_map
      sorted_wrt_filter)

lemma foldl_update_all:
  assumes "\<And>r. Q (v r)" and "\<forall>p \<in> set acc. Q (snd p)"
  shows "\<forall>p \<in> set (foldl (\<lambda>a r. AList.update (k r) (v r) a) acc rs). Q (snd p)"
  using assms(2)
proof (induction rs arbitrary: acc)
  case Nil
  then show ?case by simp
next
  case (Cons r rs)
  have "\<forall>p \<in> set (AList.update (k r) (v r) acc). Q (snd p)"
    using Cons.prems assms(1) [of r] by (auto dest!: set_update_cases)
  then show ?case
    using Cons.IH by simp
qed

text \<open>
  C5 (as stated, refuted).  The sort sees the scores only.  Whichever of the two index orders
  it returns for two equal scores, the two tied candidates leave the builder in one order for
  the rows s2, s1 and in the other order for the rows s1, s2: the order of a tie follows the
  input rows, so it is not the identity order for both inputs.
\<close>

theorem ties_follow_row_order:
  "\<not> (\<exists>argsort.
         (argsort [1/2, 1/2] = [0, 1] \<or> argsort [1/2, 1/2] = [1, 0])
       \<and> map (\<lambda>p. map student_id (snd p UR))
           (build_ranklists argsort tie_pairs [one_seat_row ''I001''])
         = map (\<lambda>p. map student_id (snd p UR))
             (build_ranklists argsort (rev tie_pairs) [one_seat_row ''I001'']))"
  by (auto simp: build_ranklists_def sort_values_def pools_of_def make_struct_def tie_pairs_def
      one_seat_row_def mk_student_def)

text \<open>
  C5 (amended).  Whenever the argsort behind \<open>sort_values\<close> returns indices of its key list
  along which the scores do not increase, every pool of every position produced by the
  builder is sorted by score descending.  Nothing orders candidates of equal score by
  identity.
\<close>

theorem pools_sorted_by_score:
  assumes "argsort_desc argsort"
  shows "\<forall>p \<in> set (build_ranklists argsort pairs_df internships_df). \<forall>c. score_desc (snd p c)"
  unfolding build_ranklists_def
  by (rule foldl_update_all [where Q = "\<lambda>rl. \<forall>c. score_desc (rl c)"])
     (simp_all add: pools_of_score_desc sort_values_desc [OF assms])

theorem pools_sorted_by_score_witness:
  "list_all (\<lambda>p. score_desc (snd p UR))
     (build_ranklists argsort_backwards tie_pairs [one_seat_row ''I001''])"
  using pools_sorted_by_score [OF argsort_backwards_desc, of tie_pairs "[one_seat_row ''I001'']"]
  by (simp add: list_all_iff)

end
